theory Spec2Isabelle
  imports Complex_Main
begin

section \<open>Python values and exceptions\<close>

text \<open>
  The exceptions that the modelled functions of \<^verbatim>\<open>ratepulling.py\<close> can raise or
  let through. \<open>APIError msg\<close> is \<^verbatim>\<open>gspread.exceptions.APIError\<close> with
  \<^verbatim>\<open>str(e) = msg\<close>; \<open>OverflowError\<close> and \<open>OSError\<close> are what the time functions of
  the platform raise for an instant they cannot convert; \<open>OtherError\<close> stands for every
  exception of another class.
\<close>

datatype exn = ValueError | OverflowError | OSError | APIError string | OtherError string

section \<open>Nearest-timestamp matching\<close>

subsection \<open>\<^verbatim>\<open>bisect.bisect_left\<close>\<close>

text \<open>
  The loop of Python's \<^verbatim>\<open>bisect_left(a, x)\<close> with \<^verbatim>\<open>lo = 0\<close> and
  \<^verbatim>\<open>hi = len(a)\<close>:
  \<^verbatim>\<open>while lo < hi: mid = (lo + hi) // 2; if a[mid] < x: lo = mid + 1 else: hi = mid\<close>.
\<close>

function bisect_left_loop :: "int list \<Rightarrow> int \<Rightarrow> nat \<Rightarrow> nat \<Rightarrow> nat" where
  "bisect_left_loop a x lo hi =
     (if lo < hi
      then (let mid = (lo + hi) div 2
            in if a ! mid < x then bisect_left_loop a x (mid + 1) hi
               else bisect_left_loop a x lo mid)
      else lo)"
  by pat_completeness auto
termination
  by (relation "measure (\<lambda>(a, x, lo, hi). hi - lo)") auto

definition bisect_left :: "int list \<Rightarrow> int \<Rightarrow> nat" where
  "bisect_left a x = bisect_left_loop a x 0 (length a)"

subsection \<open>Candidates and the selection key\<close>

type_synonym 'v sample = "int \<times> 'v"

text \<open>
  The key of the selection,
  \<^verbatim>\<open>lambda p: (abs(p[0]-ts_ms), 0 if p[0] <= ts_ms else 1)\<close>, and Python's
  order on such pairs (lexicographic).
\<close>

definition rank_key :: "int \<Rightarrow> 'v sample \<Rightarrow> int \<times> nat" where
  "rank_key ts_ms p = (\<bar>fst p - ts_ms\<bar>, if fst p \<le> ts_ms then 0 else 1)"

definition tuple_less :: "int \<times> nat \<Rightarrow> int \<times> nat \<Rightarrow> bool" where
  "tuple_less k1 k2 = (fst k1 < fst k2 \<or> (fst k1 = fst k2 \<and> snd k1 < snd k2))"

definition tuple_le :: "int \<times> nat \<Rightarrow> int \<times> nat \<Rightarrow> bool" where
  "tuple_le k1 k2 = (fst k1 < fst k2 \<or> (fst k1 = fst k2 \<and> snd k1 \<le> snd k2))"

text \<open>
  Python's \<^verbatim>\<open>min(xs, key=key)\<close>: the first element whose key is minimal (a later
  element replaces the current best only when its key is strictly smaller);
  \<^verbatim>\<open>ValueError\<close> on an empty list.
\<close>

definition min_from :: "('a \<Rightarrow> int \<times> nat) \<Rightarrow> 'a \<Rightarrow> 'a list \<Rightarrow> 'a" where
  "min_from key x xs = foldl (\<lambda>best y. if tuple_less (key y) (key best) then y else best) x xs"

definition py_min :: "('a \<Rightarrow> int \<times> nat) \<Rightarrow> 'a list \<Rightarrow> exn + 'a" where
  "py_min key xs = (case xs of [] \<Rightarrow> Inl ValueError | x # rest \<Rightarrow> Inr (min_from key x rest))"

text \<open>
  The candidate list both users of the algorithm build (lines 242--245 of
  \<^verbatim>\<open>pick_closest_rate\<close>, lines 474--477 of
  \<^verbatim>\<open>align_bybit_interest_to_funding\<close>): the sample before the insertion position,
  then the sample at it.
\<close>

definition cands :: "'v sample list \<Rightarrow> int \<Rightarrow> 'v sample list" where
  "cands hist ts_ms =
     (let pos = bisect_left (map fst hist) ts_ms
      in (if pos > 0 then [hist ! (pos - 1)] else []) @
         (if pos < length hist then [hist ! pos] else []))"

subsection \<open>\<^verbatim>\<open>pick_closest_rate\<close> (the Binance interest lookup)\<close>

definition pick_closest_rate :: "real sample list \<Rightarrow> int \<Rightarrow> exn + real option" where
  "pick_closest_rate hist ts_ms =
     (if hist = [] then Inr None
      else (case py_min (rank_key ts_ms) (cands hist ts_ms) of
              Inl e \<Rightarrow> Inl e
            | Inr best \<Rightarrow> Inr (Some (snd best))))"

subsection \<open>The update loop of \<^verbatim>\<open>align_bybit_interest_to_funding\<close>\<close>

text \<open>
  Lines 473--481: for each target \<open>(t_ms, row_idx)\<close> the candidates are collected, an
  empty candidate list skips the target, and the best candidate yields an update only
  when its distance is within \<open>gap_ms\<close>.
\<close>

fun align_loop :: "int \<Rightarrow> real sample list \<Rightarrow> (int \<times> nat) list \<Rightarrow> (nat \<times> real) list" where
  "align_loop gap_ms snaps [] = []"
| "align_loop gap_ms snaps ((t_ms, row_idx) # rest) =
     (case cands snaps t_ms of
        [] \<Rightarrow> align_loop gap_ms snaps rest
      | c # cs \<Rightarrow>
          (let best = min_from (rank_key t_ms) c cs
           in if \<bar>fst best - t_ms\<bar> \<le> gap_ms
              then (row_idx, snd best) # align_loop gap_ms snaps rest
              else align_loop gap_ms snaps rest))"

section \<open>Strings\<close>

text \<open>
  Strings are lists of 8-bit characters. \<open>is_space\<close> lists the characters below 256
  for which Python's \<^verbatim>\<open>str.isspace\<close> holds; \<^verbatim>\<open>str.strip()\<close> removes them at
  both ends. The code takes a cell for empty when \<^verbatim>\<open>str(x).strip() == ""\<close>.
\<close>

definition is_space :: "char \<Rightarrow> bool" where
  "is_space c = (of_char c \<in> set [9, 10, 11, 12, 13, 28, 29, 30, 31, 32, 133, 160 :: nat])"

definition strip :: "string \<Rightarrow> string" where
  "strip s = rev (dropWhile is_space (rev (dropWhile is_space s)))"

fun starts_with :: "string \<Rightarrow> string \<Rightarrow> bool" where
  "starts_with [] s = True"
| "starts_with (p # ps) [] = False"
| "starts_with (p # ps) (c # cs) = (p = c \<and> starts_with ps cs)"

text \<open>\<open>contains sub s\<close> is Python's \<^verbatim>\<open>sub in s\<close> on strings.\<close>

fun contains :: "string \<Rightarrow> string \<Rightarrow> bool" where
  "contains sub [] = (sub = [])"
| "contains sub (c # cs) = (starts_with sub (c # cs) \<or> contains sub cs)"

definition is_digit :: "char \<Rightarrow> bool" where
  "is_digit c = (48 \<le> (of_char c :: nat) \<and> (of_char c :: nat) \<le> 57)"

definition digit_val :: "char \<Rightarrow> nat" where
  "digit_val c = of_char c - 48"

definition digit_char :: "nat \<Rightarrow> char" where
  "digit_char n = ''0123456789'' ! n"

text \<open>Python's \<^verbatim>\<open>str(n)\<close> for a non-negative integer, and the format \<^verbatim>\<open>{n:02d}\<close>.\<close>

fun show_nat :: "nat \<Rightarrow> string" where
  "show_nat n = (if n < 10 then [digit_char n] else show_nat (n div 10) @ [digit_char (n mod 10)])"

declare show_nat.simps [simp del]

definition pad2 :: "nat \<Rightarrow> string" where
  "pad2 n = replicate (2 - length (show_nat n)) (CHR ''0'') @ show_nat n"

text \<open>
  Python's \<^verbatim>\<open>int(s)\<close> on the text of a matched group of the date format: decimal
  digits, after surrounding white space is dropped.
\<close>

definition int_of_group :: "string \<Rightarrow> nat" where
  "int_of_group s = foldl (\<lambda>n c. 10 * n + digit_val c) 0 (strip s)"

section \<open>Dates\<close>

text \<open>
  A naive \<^verbatim>\<open>datetime\<close> at whole seconds. Every datetime the program compares comes
  from \<^verbatim>\<open>strptime\<close>, whose microsecond is 0, and \<^verbatim>\<open>fmt_dt\<close> reads only the six
  fields below.
\<close>

record datetime =
  year :: nat
  month :: nat
  day :: nat
  hour :: nat
  minute :: nat
  second :: nat

definition is_leap :: "nat \<Rightarrow> bool" where
  "is_leap y = (y mod 4 = 0 \<and> (y mod 100 \<noteq> 0 \<or> y mod 400 = 0))"

text \<open>The tables \<^verbatim>\<open>_DAYS_IN_MONTH\<close> and \<^verbatim>\<open>_DAYS_BEFORE_MONTH\<close> (index 0 is unused).\<close>

definition DAYS_IN_MONTH :: "nat \<Rightarrow> nat" where
  "DAYS_IN_MONTH m = [0, 31, 28, 31, 30, 31, 30, 31, 31, 30, 31, 30, 31] ! m"

definition DAYS_BEFORE_MONTH :: "nat \<Rightarrow> nat" where
  "DAYS_BEFORE_MONTH m = [0, 0, 31, 59, 90, 120, 151, 181, 212, 243, 273, 304, 334] ! m"

definition days_in_month :: "nat \<Rightarrow> nat \<Rightarrow> nat" where
  "days_in_month y m = (if m = 2 \<and> is_leap y then 29 else DAYS_IN_MONTH m)"

text \<open>The range checks of the \<^verbatim>\<open>datetime(...)\<close> constructor.\<close>

definition mk_datetime :: "nat \<Rightarrow> nat \<Rightarrow> nat \<Rightarrow> nat \<Rightarrow> nat \<Rightarrow> nat \<Rightarrow> exn + datetime" where
  "mk_datetime y m d hh mm ss =
     (if 1 \<le> y \<and> y \<le> 9999 \<and> 1 \<le> m \<and> m \<le> 12 \<and> 1 \<le> d \<and> d \<le> days_in_month y m \<and>
         hh \<le> 23 \<and> mm \<le> 59 \<and> ss \<le> 59
      then Inr \<lparr>year = y, month = m, day = d, hour = hh, minute = mm, second = ss\<rparr>
      else Inl ValueError)"

text \<open>Python compares naive datetimes field by field, most significant first.\<close>

fun lex_less :: "nat list \<Rightarrow> nat list \<Rightarrow> bool" where
  "lex_less [] [] = False"
| "lex_less [] (y # ys) = True"
| "lex_less (x # xs) [] = False"
| "lex_less (x # xs) (y # ys) = (x < y \<or> (x = y \<and> lex_less xs ys))"

definition dt_fields :: "datetime \<Rightarrow> nat list" where
  "dt_fields dt = [year dt, month dt, day dt, hour dt, minute dt, second dt]"

definition dt_less :: "datetime \<Rightarrow> datetime \<Rightarrow> bool" where
  "dt_less a b = lex_less (dt_fields a) (dt_fields b)"

subsection \<open>\<^verbatim>\<open>datetime.strptime(s, "%m/%d/%Y %H:%M:%S")\<close>\<close>

text \<open>
  \<^verbatim>\<open>strptime\<close> turns the format into a regular expression, one group per directive,
  matches it at the start of the string, rejects a match that leaves text over, and
  builds the datetime from the groups. A matcher maps a string to the list of its
  matches \<open>(matched text, rest)\<close> in the order in which a backtracking engine tries
  them, so the head of the list for the whole expression is the match Python takes.
\<close>

type_synonym rx = "string \<Rightarrow> (string \<times> string) list"

definition rx_cls :: "(char \<Rightarrow> bool) \<Rightarrow> rx" where
  "rx_cls P s = (case s of [] \<Rightarrow> [] | c # r \<Rightarrow> if P c then [([c], r)] else [])"

definition rx_lit :: "char \<Rightarrow> rx" where
  "rx_lit c = rx_cls (\<lambda>x. x = c)"

definition rx_seq :: "rx \<Rightarrow> rx \<Rightarrow> rx" where
  "rx_seq p q s = [(a @ b, r') . (a, r) \<leftarrow> p s, (b, r') \<leftarrow> q r]"

definition rx_alt :: "rx \<Rightarrow> rx \<Rightarrow> rx" where
  "rx_alt p q s = p s @ q s"

text \<open>The greedy \<^verbatim>\<open>\s+\<close>: the longest run of white space first, then each shorter one.\<close>

definition rx_spaces :: rx where
  "rx_spaces s = map (\<lambda>n. (take n s, drop n s)) (rev [1 ..< Suc (length (takeWhile is_space s))])"

definition in_rng :: "char \<Rightarrow> char \<Rightarrow> char \<Rightarrow> bool" where
  "in_rng lo hi c = ((of_char lo :: nat) \<le> of_char c \<and> (of_char c :: nat) \<le> of_char hi)"

text \<open>\<^verbatim>\<open>%m\<close> is \<^verbatim>\<open>1[0-2]|0[1-9]|[1-9]\<close>.\<close>

definition rx_m :: rx where
  "rx_m = rx_alt (rx_seq (rx_lit (CHR ''1'')) (rx_cls (in_rng (CHR ''0'') (CHR ''2''))))
         (rx_alt (rx_seq (rx_lit (CHR ''0'')) (rx_cls (in_rng (CHR ''1'') (CHR ''9''))))
                 (rx_cls (in_rng (CHR ''1'') (CHR ''9''))))"

text \<open>\<^verbatim>\<open>%d\<close> is \<^verbatim>\<open>3[0-1]|[1-2]\d|0[1-9]|[1-9]| [1-9]\<close>.\<close>

definition rx_d :: rx where
  "rx_d = rx_alt (rx_seq (rx_lit (CHR ''3'')) (rx_cls (in_rng (CHR ''0'') (CHR ''1''))))
         (rx_alt (rx_seq (rx_cls (in_rng (CHR ''1'') (CHR ''2''))) (rx_cls is_digit))
         (rx_alt (rx_seq (rx_lit (CHR ''0'')) (rx_cls (in_rng (CHR ''1'') (CHR ''9''))))
         (rx_alt (rx_cls (in_rng (CHR ''1'') (CHR ''9'')))
                 (rx_seq (rx_lit (CHR '' '')) (rx_cls (in_rng (CHR ''1'') (CHR ''9'')))))))"

text \<open>\<^verbatim>\<open>%Y\<close> is \<^verbatim>\<open>\d\d\d\d\<close>.\<close>

definition rx_Y :: rx where
  "rx_Y = rx_seq (rx_cls is_digit) (rx_seq (rx_cls is_digit) (rx_seq (rx_cls is_digit) (rx_cls is_digit)))"

text \<open>\<^verbatim>\<open>%H\<close> is \<^verbatim>\<open>2[0-3]|[0-1]\d|\d\<close>.\<close>

definition rx_H :: rx where
  "rx_H = rx_alt (rx_seq (rx_lit (CHR ''2'')) (rx_cls (in_rng (CHR ''0'') (CHR ''3''))))
         (rx_alt (rx_seq (rx_cls (in_rng (CHR ''0'') (CHR ''1''))) (rx_cls is_digit))
                 (rx_cls is_digit))"

text \<open>\<^verbatim>\<open>%M\<close> is \<^verbatim>\<open>[0-5]\d|\d\<close>.\<close>

definition rx_M :: rx where
  "rx_M = rx_alt (rx_seq (rx_cls (in_rng (CHR ''0'') (CHR ''5''))) (rx_cls is_digit)) (rx_cls is_digit)"

text \<open>\<^verbatim>\<open>%S\<close> is \<^verbatim>\<open>6[0-1]|[0-5]\d|\d\<close>.\<close>

definition rx_S :: rx where
  "rx_S = rx_alt (rx_seq (rx_lit (CHR ''6'')) (rx_cls (in_rng (CHR ''0'') (CHR ''1''))))
         (rx_alt (rx_seq (rx_cls (in_rng (CHR ''0'') (CHR ''5''))) (rx_cls is_digit))
                 (rx_cls is_digit))"

text \<open>
  The expression of the whole format: the six groups, the literal separators, and
  \<^verbatim>\<open>\s+\<close> for the blank of the format.
\<close>

definition format_regex :: "string \<Rightarrow> ((string \<times> string \<times> string \<times> string \<times> string \<times> string) \<times> string) list" where
  "format_regex s =
     [((m, d, y, hh, mm, ss), r11) .
        (m, r1) \<leftarrow> rx_m s, (x1, r2) \<leftarrow> rx_lit (CHR ''/'') r1,
        (d, r3) \<leftarrow> rx_d r2, (x2, r4) \<leftarrow> rx_lit (CHR ''/'') r3,
        (y, r5) \<leftarrow> rx_Y r4, (x3, r6) \<leftarrow> rx_spaces r5,
        (hh, r7) \<leftarrow> rx_H r6, (x4, r8) \<leftarrow> rx_lit (CHR '':'') r7,
        (mm, r9) \<leftarrow> rx_M r8, (x5, r10) \<leftarrow> rx_lit (CHR '':'') r9,
        (ss, r11) \<leftarrow> rx_S r10]"

definition strptime :: "string \<Rightarrow> exn + datetime" where
  "strptime s =
     (case format_regex s of
        [] \<Rightarrow> Inl ValueError
      | ((m, d, y, hh, mm, ss), rest) # others \<Rightarrow>
          if rest \<noteq> [] then Inl ValueError
          else mk_datetime (int_of_group y) (int_of_group m) (int_of_group d)
                 (int_of_group hh) (int_of_group mm) (int_of_group ss))"

text \<open>\<^verbatim>\<open>_parse_dt\<close>: every exception of \<^verbatim>\<open>strptime\<close> becomes \<^verbatim>\<open>None\<close>.\<close>

definition parse_dt :: "string \<Rightarrow> datetime option" where
  "parse_dt s = (case strptime s of Inl e \<Rightarrow> None | Inr dt \<Rightarrow> Some dt)"

text \<open>
  \<^verbatim>\<open>_to_ms\<close>: \<^verbatim>\<open>int(dt.timestamp()*1000)\<close>. \<^verbatim>\<open>dt.timestamp()\<close> reads a naive
  datetime in the local time zone of the process; \<open>timestamp\<close> is that conversion to
  whole seconds since the epoch, or the exception it raises (for a date at the edge of
  the supported years, for one). Nothing in \<^verbatim>\<open>_to_ms\<close> catches it: only the parsing
  sits in a \<^verbatim>\<open>try\<close>.
\<close>

definition to_ms :: "(datetime \<Rightarrow> exn + int) \<Rightarrow> string \<Rightarrow> exn + int option" where
  "to_ms timestamp s =
     (case parse_dt s of
        None \<Rightarrow> Inr None
      | Some dt \<Rightarrow> (case timestamp dt of Inl e \<Rightarrow> Inl e | Inr secs \<Rightarrow> Inr (Some (secs * 1000))))"

subsection \<open>\<^verbatim>\<open>fmt_dt\<close>\<close>

text \<open>
  The proleptic Gregorian ordinal to year, month and day, as \<^verbatim>\<open>datetime\<close> computes
  it (\<^verbatim>\<open>_ord2ymd\<close>): 400-, 100-, 4- and 1-year cycles, then the month from the day of
  the year.
\<close>

definition ord2ymd :: "nat \<Rightarrow> nat \<times> nat \<times> nat" where
  "ord2ymd ordinal =
     (let n = ordinal - 1;
          n400 = n div 146097; n = n mod 146097;
          n100 = n div 36524; n = n mod 36524;
          n4 = n div 1461; n = n mod 1461;
          n1 = n div 365; n = n mod 365;
          y = n400 * 400 + 1 + n100 * 100 + n4 * 4 + n1
      in if n1 = 4 \<or> n100 = 4 then (y - 1, 12, 31)
         else
           (let leapyear = (n1 = 3 \<and> (n4 \<noteq> 24 \<or> n100 = 3));
                m = (n + 50) div 32;
                preceding = DAYS_BEFORE_MONTH m + (if m > 2 \<and> leapyear then 1 else 0)
            in if preceding > n
               then (let m' = m - 1;
                         preceding' = preceding - (DAYS_IN_MONTH m' + (if m' = 2 \<and> leapyear then 1 else 0))
                     in (y, m', n - preceding' + 1))
               else (y, m, n - preceding + 1)))"

text \<open>
  The local time of an instant \<open>u\<close> (seconds since the epoch), in seconds of local civil
  time counted from the epoch. \<open>utcoffset\<close> is the \<^verbatim>\<open>localtime\<close> of the platform: the
  offset of the local zone at that instant, in seconds, or the exception raised where
  the platform cannot convert the instant. A local date outside the years 1 to 9999
  raises \<^verbatim>\<open>ValueError\<close>.
\<close>

definition local_seconds :: "(int \<Rightarrow> exn + int) \<Rightarrow> int \<Rightarrow> exn + int" where
  "local_seconds utcoffset u =
     (case utcoffset u of
        Inl e \<Rightarrow> Inl e
      | Inr off \<Rightarrow>
          (let loc = u + off; ordinal = loc div 86400 + 719163
           in if ordinal < 1 \<or> 3652059 < ordinal then Inl ValueError else Inr loc))"

text \<open>
  \<^verbatim>\<open>datetime.fromtimestamp(ts_ms/1000)\<close> at whole seconds, for a naive result: the local
  time of the instant (its seconds rounded down) is split into the day and the second of
  the day. Before it returns, the function looks for a repeated hour: it takes the local
  time 24 hours earlier and, when the offset has gone back in between, the local time of
  the instant moved back by that change; each of these conversions can raise as well.
  (So the function proceeds wherever the platform converts instants before the epoch; on
  Windows it leaves the search out for the first day after the epoch.)
\<close>

definition fromtimestamp :: "(int \<Rightarrow> exn + int) \<Rightarrow> int \<Rightarrow> exn + datetime" where
  "fromtimestamp utcoffset ts_ms =
     (let secs = ts_ms div 1000
      in case local_seconds utcoffset secs of
           Inl e \<Rightarrow> Inl e
         | Inr loc \<Rightarrow>
             (case local_seconds utcoffset (secs - 86400) of
                Inl e \<Rightarrow> Inl e
              | Inr probe \<Rightarrow>
                  (let transition = loc - probe - 86400
                   in case (if transition < 0 then local_seconds utcoffset (secs + transition)
                            else Inr loc) of
                        Inl e \<Rightarrow> Inl e
                      | Inr probe2 \<Rightarrow>
                          (let sod = nat (loc mod 86400)
                           in case ord2ymd (nat (loc div 86400 + 719163)) of
                                (y, m, d) \<Rightarrow>
                                  Inr \<lparr>year = y, month = m, day = d, hour = sod div 3600,
                                       minute = sod mod 3600 div 60, second = sod mod 60\<rparr>))))"

text \<open>The f-string of \<^verbatim>\<open>fmt_dt\<close>.\<close>

definition format_dt :: "datetime \<Rightarrow> string" where
  "format_dt dt =
     show_nat (month dt) @ ''/'' @ show_nat (day dt) @ ''/'' @ show_nat (year dt) @ '' '' @
     show_nat (hour dt) @ '':'' @ pad2 (minute dt) @ '':'' @ pad2 (second dt)"

definition fmt_dt :: "(int \<Rightarrow> exn + int) \<Rightarrow> int \<Rightarrow> exn + string" where
  "fmt_dt utcoffset ts_ms =
     (case fromtimestamp utcoffset ts_ms of Inl e \<Rightarrow> Inl e | Inr dt \<Rightarrow> Inr (format_dt dt))"

section \<open>The quota-gated executor \<^verbatim>\<open>gs_retry\<close>\<close>

definition rate_limited :: "string \<Rightarrow> bool" where
  "rate_limited msg = (contains ''429'' msg \<or> contains ''Quota exceeded'' msg)"

text \<open>
  The wrapped call \<^verbatim>\<open>fn(*args, **kwargs)\<close> acts on the state of the outside world:
  it returns a value or raises, and leaves a new state. \<open>gs_retry_loop fn n delay\<close> is
  the \<^verbatim>\<open>for\<close> loop with \<open>n\<close> iterations left, followed by the last call after the
  loop; the list collects the arguments of \<^verbatim>\<open>time.sleep\<close> in order. Only
  \<^verbatim>\<open>APIError\<close> is caught; another exception leaves the function at once.
\<close>

fun gs_retry_loop ::
  "('s \<Rightarrow> (exn + 'a) \<times> 's) \<Rightarrow> nat \<Rightarrow> real \<Rightarrow> 's \<Rightarrow> real list \<Rightarrow> (exn + 'a) \<times> 's \<times> real list" where
  "gs_retry_loop fn 0 delay s slept = (case fn s of (r, s') \<Rightarrow> (r, s', slept))"
| "gs_retry_loop fn (Suc n) delay s slept =
     (case fn s of
        (Inr v, s') \<Rightarrow> (Inr v, s', slept)
      | (Inl (APIError msg), s') \<Rightarrow>
          if rate_limited msg then gs_retry_loop fn n (delay * 2) s' (slept @ [delay])
          else (Inl (APIError msg), s', slept)
      | (Inl e, s') \<Rightarrow> (Inl e, s', slept))"

declare gs_retry_loop.simps [simp del]

definition gs_retry :: "('s \<Rightarrow> (exn + 'a) \<times> 's) \<Rightarrow> 's \<Rightarrow> (exn + 'a) \<times> 's \<times> real list" where
  "gs_retry fn s = gs_retry_loop fn 6 1 s []"

section \<open>Worksheets, rows and the per-sheet caches\<close>

text \<open>
  The values a row handed to \<^verbatim>\<open>append_new_unique_rows\<close> holds: \<^verbatim>\<open>None\<close>, a string
  or a float. \<^verbatim>\<open>str(x)\<close> of a float is Python's shortest representation, which is
  not modelled: \<open>float_str\<close> stands for it.
\<close>

datatype pyval = PNone | PStr string | PFloat real

fun py_str :: "(real \<Rightarrow> string) \<Rightarrow> pyval \<Rightarrow> string" where
  "py_str float_str PNone = ''None''"
| "py_str float_str (PStr s) = s"
| "py_str float_str (PFloat x) = float_str x"

text \<open>
  A worksheet as the program reads it: its title and what the three reads return
  (\<^verbatim>\<open>col_values(1)\<close>, \<^verbatim>\<open>get('A2:B')\<close>, \<^verbatim>\<open>get('A2:D')\<close>), every cell a string.
\<close>

record worksheet =
  ws_title :: string
  ws_col_1 :: "string list"
  ws_A2B :: "string list list"
  ws_A2D :: "string list list"

text \<open>The module-level dictionaries \<^verbatim>\<open>_EXISTING_DATES_CACHE\<close> and \<^verbatim>\<open>_LAST_FUNDING_DT_CACHE\<close>.\<close>

record caches =
  EXISTING_DATES_CACHE :: "string \<rightharpoonup> string set"
  LAST_FUNDING_DT_CACHE :: "string \<rightharpoonup> datetime option"

definition get_existing_dates_set :: "worksheet \<Rightarrow> caches \<Rightarrow> string set \<times> caches" where
  "get_existing_dates_set ws c =
     (case EXISTING_DATES_CACHE c (ws_title ws) of
        Some s \<Rightarrow> (s, c)
      | None \<Rightarrow>
          (let vals = ws_col_1 ws;
               s = set (filter (\<lambda>v. v \<noteq> []) (drop 1 vals))
           in (s, c\<lparr>EXISTING_DATES_CACHE := (EXISTING_DATES_CACHE c)(ws_title ws \<mapsto> s)\<rparr>)))"

text \<open>\<^verbatim>\<open>row[k] if len(row)>k else ""\<close>\<close>

definition cell_at :: "string list \<Rightarrow> nat \<Rightarrow> string" where
  "cell_at row k = (if length row > k then row ! k else [])"

text \<open>The loop of \<^verbatim>\<open>get_last_funding_dt\<close> over the rows of \<^verbatim>\<open>A2:B\<close>.\<close>

fun last_funding_loop :: "string list list \<Rightarrow> datetime option \<Rightarrow> datetime option" where
  "last_funding_loop [] last_dt = last_dt"
| "last_funding_loop (row # rows) last_dt =
     (if row = [] then last_funding_loop rows last_dt
      else
        (let ds = cell_at row 0; b = cell_at row 1
         in if ds \<noteq> [] \<and> strip b \<noteq> []
            then (case parse_dt ds of
                    None \<Rightarrow> last_funding_loop rows last_dt
                  | Some dt \<Rightarrow>
                      if (case last_dt of None \<Rightarrow> True | Some l \<Rightarrow> dt_less l dt)
                      then last_funding_loop rows (Some dt)
                      else last_funding_loop rows last_dt)
            else last_funding_loop rows last_dt))"

definition get_last_funding_dt :: "worksheet \<Rightarrow> caches \<Rightarrow> datetime option \<times> caches" where
  "get_last_funding_dt ws c =
     (case LAST_FUNDING_DT_CACHE c (ws_title ws) of
        Some r \<Rightarrow> (r, c)
      | None \<Rightarrow>
          (let vals = ws_A2B ws;
               last_dt = last_funding_loop vals None
           in (last_dt, c\<lparr>LAST_FUNDING_DT_CACHE := (LAST_FUNDING_DT_CACHE c)(ws_title ws \<mapsto> last_dt)\<rparr>)))"

subsection \<open>\<^verbatim>\<open>append_new_unique_rows\<close>\<close>

text \<open>The condition of the comprehension, \<^verbatim>\<open>r and str(r[0]) not in existing\<close>.\<close>

definition is_new :: "(real \<Rightarrow> string) \<Rightarrow> string set \<Rightarrow> pyval list \<Rightarrow> bool" where
  "is_new float_str existing r = (case r of [] \<Rightarrow> False | k # rest \<Rightarrow> py_str float_str k \<notin> existing)"

text \<open>
  The loop over \<^verbatim>\<open>to_add\<close>: each row is cut to 11 fields and filled up with
  \<^verbatim>\<open>""\<close>, and its key is added to the set, which is the object the cache holds.
\<close>

fun normalize_loop ::
  "(real \<Rightarrow> string) \<Rightarrow> pyval list list \<Rightarrow> string set \<Rightarrow> pyval list list \<times> string set" where
  "normalize_loop float_str [] existing = ([], existing)"
| "normalize_loop float_str (r # rs) existing =
     (let row = take 11 r;
          row = row @ replicate (11 - length row) (PStr []);
          (out, existing') = normalize_loop float_str rs (insert (py_str float_str (row ! 0)) existing)
      in (row # out, existing'))"

text \<open>
  The result is the new state of the caches and the batches passed to
  \<^verbatim>\<open>ws.append_rows\<close>, one per call; the function returns no value.
\<close>

definition append_new_unique_rows ::
  "(real \<Rightarrow> string) \<Rightarrow> worksheet \<Rightarrow> pyval list list \<Rightarrow> caches \<Rightarrow> caches \<times> pyval list list list" where
  "append_new_unique_rows float_str ws rows c =
     (if rows = [] then (c, [])
      else
        (case get_existing_dates_set ws c of
           (existing, c1) \<Rightarrow>
             (let to_add = filter (is_new float_str existing) rows
              in if to_add = [] then (c1, [])
                 else (case normalize_loop float_str to_add existing of
                         (out, existing') \<Rightarrow>
                           (c1\<lparr>EXISTING_DATES_CACHE := (EXISTING_DATES_CACHE c1)(ws_title ws \<mapsto> existing')\<rparr>,
                            [out])))))"

section \<open>Loan arithmetic\<close>

text \<open>
  Floats are read as real numbers; \<^verbatim>\<open>None\<close> is an absent argument. \<^verbatim>\<open>not x\<close>
  holds for \<^verbatim>\<open>None\<close> and for zero, and the comparisons are reached only for numbers.
\<close>

fun collateral_needed_usdt :: "real option \<Rightarrow> real option \<Rightarrow> real option" where
  "collateral_needed_usdt (Some loan_usd) (Some init_ltv) =
     (if loan_usd = 0 \<or> init_ltv = 0 \<or> init_ltv \<le> 0 then None else Some (loan_usd / init_ltv))"
| "collateral_needed_usdt loan_usd init_ltv = None"

fun liquidation_start_price :: "real option \<Rightarrow> real option \<Rightarrow> real option \<Rightarrow> real option" where
  "liquidation_start_price (Some spot) (Some init_ltv) (Some liq_ltv) =
     (if spot = 0 \<or> spot \<le> 0 \<or> init_ltv = 0 \<or> liq_ltv = 0 then None
      else Some (spot * (liq_ltv / init_ltv)))"
| "liquidation_start_price spot init_ltv liq_ltv = None"

section \<open>The Bybit snapshot row of \<^verbatim>\<open>main\<close>\<close>

text \<open>The dictionary \<^verbatim>\<open>by_loan_snapshot\<close> returns when it is not empty.\<close>

record loan_snapshot =
  flexible_pct :: "real option"
  fixed90_pct :: "real option"
  fixed180_pct :: "real option"
  maxBorrow_coin :: "real option"

text \<open>Python's \<^verbatim>\<open>a or b\<close> on optional floats: \<open>a\<close> when it is a non-zero number.\<close>

definition py_or :: "real option \<Rightarrow> real option \<Rightarrow> real option" where
  "py_or a b = (case a of None \<Rightarrow> b | Some x \<Rightarrow> if x = 0 then b else a)"

definition of_optional :: "real option \<Rightarrow> pyval" where
  "of_optional x = (case x of None \<Rightarrow> PNone | Some v \<Rightarrow> PFloat v)"

text \<open>Lines 528--532: the row built from the snapshot and the formatted time.\<close>

definition snapshot_row :: "string \<Rightarrow> loan_snapshot \<Rightarrow> pyval list" where
  "snapshot_row ts snap =
     (let d = py_or (py_or (flexible_pct snap) (fixed90_pct snap)) (fixed180_pct snap);
          spot = PNone
      in [PStr ts, PFloat 0, PFloat 0, of_optional d, spot, PNone, PNone, PNone, PNone, PNone, PNone])"

definition APPEND_BYBIT_SNAPSHOT_ROW :: bool where
  "APPEND_BYBIT_SNAPSHOT_ROW = True"

text \<open>
  Lines 524--533 for one instrument: \<open>snap\<close> is \<open>None\<close> for the empty dictionary, and
  \<open>now\<close> is the value of \<^verbatim>\<open>now_ms()\<close>.
\<close>

definition append_snapshot_row ::
  "(real \<Rightarrow> string) \<Rightarrow> (int \<Rightarrow> exn + int) \<Rightarrow> int \<Rightarrow> worksheet \<Rightarrow> loan_snapshot option \<Rightarrow> caches \<Rightarrow>
   exn + caches \<times> pyval list list list" where
  "append_snapshot_row float_str utcoffset now ws snap c =
     (if APPEND_BYBIT_SNAPSHOT_ROW
      then (case snap of
              None \<Rightarrow> Inr (c, [])
            | Some sn \<Rightarrow>
                (case fmt_dt utcoffset now of
                   Inl e \<Rightarrow> Inl e
                 | Inr ts \<Rightarrow> Inr (append_new_unique_rows float_str ws [snapshot_row ts sn] c)))
      else Inr (c, []))"

section \<open>\<^verbatim>\<open>align_bybit_interest_to_funding\<close>\<close>

definition BYBIT_ALIGN_MAX_GAP_HOURS :: int where
  "BYBIT_ALIGN_MAX_GAP_HOURS = 48"

text \<open>
  The first loop (lines 451--464) over the rows of \<^verbatim>\<open>A2:D\<close>, numbered from \<open>i\<close>:
  it collects the interest snapshots and the targets. \<open>float_of\<close> is Python's
  \<^verbatim>\<open>float\<close> on a string, \<open>None\<close> where it raises (the loop catches that). An
  exception of \<^verbatim>\<open>_to_ms\<close> ends the loop and the function at the first row that
  raises it.
\<close>

fun classify_rows ::
  "(datetime \<Rightarrow> exn + int) \<Rightarrow> (string \<Rightarrow> real option) \<Rightarrow> nat \<Rightarrow> string list list \<Rightarrow>
   exn + real sample list \<times> (int \<times> nat) list" where
  "classify_rows timestamp float_of i [] = Inr ([], [])"
| "classify_rows timestamp float_of i (row # rows) =
     (let a = cell_at row 0; b = cell_at row 1; d = cell_at row 3
      in if a = [] then classify_rows timestamp float_of (Suc i) rows
         else (case to_ms timestamp a of
                 Inl e \<Rightarrow> Inl e
               | Inr None \<Rightarrow> classify_rows timestamp float_of (Suc i) rows
               | Inr (Some t_ms) \<Rightarrow>
                   (case classify_rows timestamp float_of (Suc i) rows of
                      Inl e \<Rightarrow> Inl e
                    | Inr (snaps, targets) \<Rightarrow>
                        if strip b = [] \<and> strip d \<noteq> []
                        then (case float_of (filter (\<lambda>ch. ch \<noteq> CHR '','') d) of
                                Some rate \<Rightarrow> Inr ((t_ms, rate) # snaps, targets)
                              | None \<Rightarrow> Inr (snaps, targets))
                        else if strip b \<noteq> [] \<and> strip d = []
                        then Inr (snaps, (t_ms, i) # targets)
                        else Inr (snaps, targets))))"

text \<open>The list of \<open>(row, value)\<close> updates the function builds (lines 447--481).\<close>

definition align_updates ::
  "(datetime \<Rightarrow> exn + int) \<Rightarrow> (string \<Rightarrow> real option) \<Rightarrow> string list list \<Rightarrow>
   exn + (nat \<times> real) list" where
  "align_updates timestamp float_of vals =
     (if vals = [] then Inr []
      else (case classify_rows timestamp float_of 2 vals of
              Inl e \<Rightarrow> Inl e
            | Inr (snaps, targets) \<Rightarrow>
                if snaps = [] \<or> targets = [] then Inr []
                else (let snaps' = sort_key fst snaps;
                          gap_ms = BYBIT_ALIGN_MAX_GAP_HOURS * 3600 * 1000
                      in Inr (align_loop gap_ms snaps' targets))))"

text \<open>
  The cells of the sheet, addressed by row and column from 1, and
  \<^verbatim>\<open>ws.update_cell(row, col, val)\<close> with a float.
\<close>

type_synonym sheet = "nat \<times> nat \<Rightarrow> pyval"

definition update_cell :: "sheet \<Rightarrow> nat \<Rightarrow> nat \<Rightarrow> real \<Rightarrow> sheet" where
  "update_cell sh row col val = sh((row, col) := PFloat val)"

text \<open>
  The whole function on the sheet: it returns nothing or raises, and leaves the sheet.
  An exception of the first loop comes before every write.
\<close>

definition align_bybit_interest_to_funding ::
  "(datetime \<Rightarrow> exn + int) \<Rightarrow> (string \<Rightarrow> real option) \<Rightarrow> worksheet \<Rightarrow> sheet \<Rightarrow>
   (exn + unit) \<times> sheet" where
  "align_bybit_interest_to_funding timestamp float_of ws sh =
     (case align_updates timestamp float_of (ws_A2D ws) of
        Inl e \<Rightarrow> (Inl e, sh)
      | Inr updates \<Rightarrow>
          (Inr (), foldl (\<lambda>sh (row_idx, val). update_cell sh row_idx 4 val) sh updates))"

section \<open>Notions used to state the properties\<close>

text \<open>
  The successive calls of a wrapped operation: \<open>state_after fn s k\<close> is the state of the
  world after \<open>k\<close> calls from \<open>s\<close>, \<open>outcome_at fn s k\<close> what call number \<open>k\<close> (from 0)
  returns or raises, and \<open>retryable\<close> the failures \<^verbatim>\<open>gs_retry\<close> classifies as
  rate-limit.
\<close>

fun state_after :: "('s \<Rightarrow> (exn + 'a) \<times> 's) \<Rightarrow> 's \<Rightarrow> nat \<Rightarrow> 's" where
  "state_after fn s 0 = s"
| "state_after fn s (Suc k) = snd (fn (state_after fn s k))"

definition outcome_at :: "('s \<Rightarrow> (exn + 'a) \<times> 's) \<Rightarrow> 's \<Rightarrow> nat \<Rightarrow> exn + 'a" where
  "outcome_at fn s k = fst (fn (state_after fn s k))"

definition retryable :: "exn + 'a \<Rightarrow> bool" where
  "retryable r = (case r of Inl (APIError msg) \<Rightarrow> rate_limited msg | Inl e \<Rightarrow> False | Inr v \<Rightarrow> False)"

text \<open>
  A row at the fixed width of 11 fields: the fields beyond the 11th dropped, the missing
  ones filled with the empty string. \<open>row_key\<close> is the primary key of a non-empty row.
\<close>

definition normalized :: "pyval list \<Rightarrow> pyval list" where
  "normalized r = take 11 r @ replicate (11 - length r) (PStr [])"

definition row_key :: "(real \<Rightarrow> string) \<Rightarrow> pyval list \<Rightarrow> string" where
  "row_key float_str r = py_str float_str (r ! 0)"

definition no_caches :: caches where
  "no_caches = \<lparr>EXISTING_DATES_CACHE = Map.empty, LAST_FUNDING_DT_CACHE = Map.empty\<rparr>"

text \<open>
  The range conditions a \<^verbatim>\<open>datetime\<close> object satisfies (the constructor checks them).
\<close>

definition valid_datetime :: "datetime \<Rightarrow> bool" where
  "valid_datetime dt \<longleftrightarrow>
     1 \<le> year dt \<and> year dt \<le> 9999 \<and> 1 \<le> month dt \<and> month dt \<le> 12 \<and>
     1 \<le> day dt \<and> day dt \<le> days_in_month (year dt) (month dt) \<and>
     hour dt \<le> 23 \<and> minute dt \<le> 59 \<and> second dt \<le> 59"

section \<open>Nearest-timestamp matching: the selection rule\<close>

lemma bisect_left_loop_spec:
  assumes "sorted a" "lo \<le> hi" "hi \<le> length a"
    and "\<forall>i<lo. a ! i < x" and "\<forall>i. hi \<le> i \<and> i < length a \<longrightarrow> x \<le> a ! i"
  shows "lo \<le> bisect_left_loop a x lo hi \<and> bisect_left_loop a x lo hi \<le> hi \<and>
         (\<forall>i<bisect_left_loop a x lo hi. a ! i < x) \<and>
         (\<forall>i. bisect_left_loop a x lo hi \<le> i \<and> i < length a \<longrightarrow> x \<le> a ! i)"
  using assms
proof (induction a x lo hi rule: bisect_left_loop.induct)
  case (1 a x lo hi)
  show ?case
  proof (cases "lo < hi")
    case False
    with "1.prems" show ?thesis by (simp add: bisect_left_loop.simps [of a x lo hi])
  next
    case True
    define mid where "mid = (lo + hi) div 2"
    have mid: "lo \<le> mid" "mid < hi" using True by (auto simp: mid_def)
    show ?thesis
    proof (cases "a ! mid < x")
      case lt: True
      have below: "\<forall>i<mid + 1. a ! i < x"
      proof (intro allI impI)
        fix i assume "i < mid + 1"
        then have "i \<le> mid" by simp
        moreover have "mid < length a" using mid "1.prems"(3) by simp
        ultimately have "a ! i \<le> a ! mid" using "1.prems"(1) by (simp add: sorted_nth_mono)
        with lt show "a ! i < x" by simp
      qed
      have eq: "bisect_left_loop a x lo hi = bisect_left_loop a x (mid + 1) hi"
        using True lt by (simp add: bisect_left_loop.simps [of a x lo hi] mid_def Let_def)
      have le: "mid + 1 \<le> hi" using mid by simp
      note IH = "1.IH"(1) [OF True mid_def lt "1.prems"(1) le "1.prems"(3) below "1.prems"(5)]
      have "lo \<le> bisect_left_loop a x (mid + 1) hi" using IH mid(1) by linarith
      with IH show ?thesis unfolding eq by blast
    next
      case ge: False
      have above: "\<forall>i. mid \<le> i \<and> i < length a \<longrightarrow> x \<le> a ! i"
      proof (intro allI impI)
        fix i assume "mid \<le> i \<and> i < length a"
        then have "a ! mid \<le> a ! i" using "1.prems"(1) by (simp add: sorted_nth_mono)
        with ge show "x \<le> a ! i" by simp
      qed
      have eq: "bisect_left_loop a x lo hi = bisect_left_loop a x lo mid"
        using True ge by (simp add: bisect_left_loop.simps [of a x lo hi] mid_def Let_def)
      have le: "mid \<le> length a" using mid "1.prems"(3) by simp
      note IH = "1.IH"(2) [OF True mid_def ge "1.prems"(1) mid(1) le "1.prems"(4) above]
      have "bisect_left_loop a x lo mid \<le> hi" using IH mid(2) by linarith
      with IH show ?thesis unfolding eq by blast
    qed
  qed
qed

lemma bisect_left_spec:
  assumes "sorted a"
  shows "bisect_left a x \<le> length a \<and> (\<forall>i<bisect_left a x. a ! i < x) \<and>
         (\<forall>i. bisect_left a x \<le> i \<and> i < length a \<longrightarrow> x \<le> a ! i)"
  using bisect_left_loop_spec [OF assms, of 0 "length a" x] by (simp add: bisect_left_def)

lemma bisect_left_loop_bounds:
  "lo \<le> hi \<Longrightarrow> lo \<le> bisect_left_loop a x lo hi \<and> bisect_left_loop a x lo hi \<le> hi"
proof (induction a x lo hi rule: bisect_left_loop.induct)
  case (1 a x lo hi)
  show ?case
  proof (cases "lo < hi")
    case False
    with "1.prems" show ?thesis by (simp add: bisect_left_loop.simps [of a x lo hi])
  next
    case True
    define mid where "mid = (lo + hi) div 2"
    have mid: "lo \<le> mid" "mid < hi" using True by (auto simp: mid_def)
    show ?thesis
    proof (cases "a ! mid < x")
      case lt: True
      have eq: "bisect_left_loop a x lo hi = bisect_left_loop a x (mid + 1) hi"
        using True lt by (simp add: bisect_left_loop.simps [of a x lo hi] mid_def Let_def)
      have le: "mid + 1 \<le> hi" using mid by simp
      show ?thesis unfolding eq using "1.IH"(1) [OF True mid_def lt le] mid(1) by linarith
    next
      case ge: False
      have eq: "bisect_left_loop a x lo hi = bisect_left_loop a x lo mid"
        using True ge by (simp add: bisect_left_loop.simps [of a x lo hi] mid_def Let_def)
      show ?thesis unfolding eq using "1.IH"(2) [OF True mid_def ge mid(1)] mid(2) by linarith
    qed
  qed
qed

lemma bisect_left_le_length: "bisect_left a x \<le> length a"
  using bisect_left_loop_bounds [of 0 "length a" a x] by (simp add: bisect_left_def)

lemma cands_nonempty: "hist \<noteq> [] \<Longrightarrow> cands hist ts \<noteq> []"
  by (cases "bisect_left (map fst hist) ts") (simp_all add: cands_def Let_def)

lemma tuple_le_refl: "tuple_le k k"
  by (simp add: tuple_le_def)

lemma tuple_le_trans: "tuple_le a b \<Longrightarrow> tuple_le b c \<Longrightarrow> tuple_le a c"
  by (auto simp: tuple_le_def)

lemma tuple_less_le: "tuple_less a b \<Longrightarrow> tuple_le a b"
  by (auto simp: tuple_less_def tuple_le_def)

lemma not_tuple_less_le: "\<not> tuple_less a b \<Longrightarrow> tuple_le b a"
  by (auto simp: tuple_less_def tuple_le_def)

lemma min_from_mem: "min_from key x xs \<in> set (x # xs)"
  unfolding min_from_def by (induction xs arbitrary: x) auto

lemma min_from_le_start: "tuple_le (key (min_from key x xs)) (key x)"
  unfolding min_from_def
proof (induction xs arbitrary: x)
  case Nil
  show ?case by (simp add: tuple_le_refl)
next
  case (Cons y ys)
  show ?case
  proof (cases "tuple_less (key y) (key x)")
    case True
    then show ?thesis using Cons [of y] by (auto intro: tuple_le_trans tuple_less_le)
  next
    case False
    then show ?thesis using Cons [of x] by simp
  qed
qed

lemma min_from_least: "y \<in> set (x # xs) \<Longrightarrow> tuple_le (key (min_from key x xs)) (key y)"
proof (induction xs arbitrary: x)
  case Nil
  then show ?case by (simp add: min_from_def tuple_le_refl)
next
  case (Cons z zs)
  define x' where "x' = (if tuple_less (key z) (key x) then z else x)"
  have step: "min_from key x (z # zs) = min_from key x' zs"
    by (simp add: min_from_def x'_def)
  have x'_le: "tuple_le (key x') (key x)" "tuple_le (key x') (key z)"
    by (auto simp: x'_def tuple_le_refl intro: tuple_less_le not_tuple_less_le)
  from Cons.prems consider "y = x" | "y = z" | "y \<in> set zs" by auto
  then show ?case
  proof cases
    case 1
    then show ?thesis unfolding step using min_from_le_start [of key x' zs] x'_le(1)
      by (blast intro: tuple_le_trans)
  next
    case 2
    then show ?thesis unfolding step using min_from_le_start [of key x' zs] x'_le(2)
      by (blast intro: tuple_le_trans)
  next
    case 3
    then show ?thesis unfolding step using Cons.IH [of x'] by simp
  qed
qed

lemma py_min_cands:
  assumes "S \<noteq> []"
  shows "\<exists>best \<in> set (cands S t).
           (\<forall>c \<in> set (cands S t). tuple_le (rank_key t best) (rank_key t c)) \<and>
           py_min (rank_key t) (cands S t) = Inr best"
proof -
  obtain c cs where cs: "cands S t = c # cs"
    using cands_nonempty [OF assms, of t] by (cases "cands S t") auto
  let ?b = "min_from (rank_key t) c cs"
  have "?b \<in> set (cands S t)" using min_from_mem [of "rank_key t" c cs] cs by simp
  moreover have "\<forall>y \<in> set (cands S t). tuple_le (rank_key t ?b) (rank_key t y)"
    using min_from_least [of _ c cs "rank_key t"] cs by simp
  moreover have "py_min (rank_key t) (cands S t) = Inr ?b" by (simp add: py_min_def cs)
  ultimately show ?thesis by blast
qed

lemma pick_closest_rate_py_min:
  "py_min (rank_key t) (cands S t) = Inr best \<Longrightarrow> S \<noteq> [] \<Longrightarrow> pick_closest_rate S t = Inr (Some (snd best))"
  by (simp add: pick_closest_rate_def)

lemma align_loop_single:
  "py_min (rank_key t) (cands S t) = Inr best \<Longrightarrow>
   align_loop gap S [(t, row)] = (if \<bar>fst best - t\<bar> \<le> gap then [(row, snd best)] else [])"
  by (cases "cands S t") (auto simp: py_min_def Let_def)




lemma nearest_sorted:
  fixes S :: "'v sample list" and t :: int
  assumes s: "sorted (map fst S)" and ne: "S \<noteq> []"
  defines "p \<equiv> bisect_left (map fst S) t"
  defines "best \<equiv> (if p = 0 then S ! 0
                     else if p = length S then S ! (p - 1)
                     else if t - fst (S ! (p - 1)) \<le> fst (S ! p) - t then S ! (p - 1)
                     else S ! p)"
  shows "py_min (rank_key t) (cands S t) = Inr best"
    and "best \<in> set S"
    and "\<forall>x \<in> set S. \<bar>fst best - t\<bar> \<le> \<bar>fst x - t\<bar>"
    and "\<forall>x \<in> set S. fst x \<le> t \<and> \<bar>fst x - t\<bar> = \<bar>fst best - t\<bar> \<longrightarrow> fst best \<le> t"
proof -
  note sp = bisect_left_spec [OF s, of t]
  have len: "0 < length S" using ne by simp
  have ple: "p \<le> length S" using sp by (simp add: p_def)
  have below: "fst (S ! i) < t" if "i < p" for i
  proof -
    from that ple have "i < length S" by simp
    with that sp show ?thesis by (metis nth_map p_def)
  qed
  have above: "t \<le> fst (S ! i)" if "p \<le> i" "i < length S" for i
  proof -
    from that sp have "t \<le> map fst S ! i" by (simp add: p_def)
    with that show ?thesis by simp
  qed
  have mono: "fst (S ! i) \<le> fst (S ! j)" if "i \<le> j" "j < length S" for i j
  proof -
    from that have "map fst S ! i \<le> map fst S ! j"
      using sorted_nth_mono [OF s, of i j] by simp
    with that show ?thesis by simp
  qed
  have cs: "cands S t = (if 0 < p then [S ! (p - 1)] else []) @ (if p < length S then [S ! p] else [])"
    by (simp add: cands_def Let_def p_def)
  consider (first) "p = 0" | (last) "p = length S" "0 < p" | (mid) "0 < p" "p < length S"
    using ple by linarith
  then have all: "py_min (rank_key t) (cands S t) = Inr best \<and> best \<in> set S \<and>
      (\<forall>i < length S. \<bar>fst best - t\<bar> \<le> \<bar>fst (S ! i) - t\<bar> \<and>
          (fst (S ! i) \<le> t \<and> \<bar>fst (S ! i) - t\<bar> = \<bar>fst best - t\<bar> \<longrightarrow> fst best \<le> t))"
  proof cases
    case first
    have b: "best = S ! 0" by (simp add: best_def first)
    have 1: "py_min (rank_key t) (cands S t) = Inr best"
      using len by (simp add: cs first b py_min_def min_from_def)
    have 2: "best \<in> set S" using len by (simp add: b)
    have 3: "\<bar>fst best - t\<bar> \<le> \<bar>fst (S ! i) - t\<bar> \<and>
          (fst (S ! i) \<le> t \<and> \<bar>fst (S ! i) - t\<bar> = \<bar>fst best - t\<bar> \<longrightarrow> fst best \<le> t)"
      if "i < length S" for i
      using above [of 0] above [of i] mono [of 0 i] that len first unfolding b by auto
    from 1 2 3 show ?thesis by blast
  next
    case last
    have b: "best = S ! (p - 1)" using last by (simp add: best_def)
    have 1: "py_min (rank_key t) (cands S t) = Inr best"
      using last by (simp add: cs b py_min_def min_from_def)
    have 2: "best \<in> set S" using last by (simp add: b)
    have 3: "\<bar>fst best - t\<bar> \<le> \<bar>fst (S ! i) - t\<bar> \<and>
          (fst (S ! i) \<le> t \<and> \<bar>fst (S ! i) - t\<bar> = \<bar>fst best - t\<bar> \<longrightarrow> fst best \<le> t)"
      if "i < length S" for i
      using below [of "p - 1"] below [of i] mono [of i "p - 1"] that last unfolding b by auto
    from 1 2 3 show ?thesis by blast
  next
    case mid
    define a where "a = S ! (p - 1)"
    define b where "b = S ! p"
    have ab: "fst a < t" "t \<le> fst b"
      using below [of "p - 1"] above [of p] mid by (simp_all add: a_def b_def)
    have best: "best = (if t - fst a \<le> fst b - t then a else b)"
      using mid by (simp add: best_def a_def b_def)
    have cs': "cands S t = [a, b]" using mid by (simp add: cs a_def b_def)
    have 1: "py_min (rank_key t) (cands S t) = Inr best"
      using ab by (auto simp: cs' best py_min_def min_from_def rank_key_def tuple_less_def)
    have 2: "best \<in> set S" using mid by (simp add: best a_def b_def)
    have 3: "\<bar>fst best - t\<bar> \<le> \<bar>fst (S ! i) - t\<bar> \<and>
          (fst (S ! i) \<le> t \<and> \<bar>fst (S ! i) - t\<bar> = \<bar>fst best - t\<bar> \<longrightarrow> fst best \<le> t)"
      if i: "i < length S" for i
    proof (cases "i < p")
      case True
      then have "fst (S ! i) \<le> fst a" using mono [of i "p - 1"] mid by (simp add: a_def)
      with ab show ?thesis unfolding best by auto
    next
      case False
      then have "fst b \<le> fst (S ! i)" "t \<le> fst (S ! i)"
        using mono [of p i] above [of i] i by (simp_all add: b_def)
      with ab show ?thesis unfolding best by auto
    qed
    from 1 2 3 show ?thesis by blast
  qed
  from all show "py_min (rank_key t) (cands S t) = Inr best" "best \<in> set S" by simp_all
  from all show "\<forall>x \<in> set S. \<bar>fst best - t\<bar> \<le> \<bar>fst x - t\<bar>"
    by (metis in_set_conv_nth)
  from all show "\<forall>x \<in> set S. fst x \<le> t \<and> \<bar>fst x - t\<bar> = \<bar>fst best - t\<bar> \<longrightarrow> fst best \<le> t"
    by (metis in_set_conv_nth)
qed

lemma nearest_sorted_ex:
  fixes S :: "'v sample list"
  assumes "sorted (map fst S)" "S \<noteq> []"
  shows "\<exists>best \<in> set S. py_min (rank_key t) (cands S t) = Inr best \<and>
           (\<forall>x \<in> set S. \<bar>fst best - t\<bar> \<le> \<bar>fst x - t\<bar>)"
  using nearest_sorted(1-3) [OF assms, of t] by blast



section \<open>The gap policy\<close>

lemma py_min_Inr_iff: "py_min key xs = Inr b \<longleftrightarrow> (\<exists>c cs. xs = c # cs \<and> b = min_from key c cs)"
  by (cases xs) (auto simp: py_min_def)

lemma align_loop_rows:
  "map fst (align_loop gap snaps targets) =
   map snd (filter (\<lambda>(t, row). \<exists>best. py_min (rank_key t) (cands snaps t) = Inr best \<and>
                                   \<bar>fst best - t\<bar> \<le> gap) targets)"
proof (induction targets)
  case Nil
  show ?case by simp
next
  case (Cons tr rest)
  obtain t row where tr: "tr = (t, row)" by (cases tr)
  show ?case
  proof (cases "cands snaps t")
    case Nil
    then show ?thesis using Cons by (simp add: tr py_min_def)
  next
    case (Cons c cs)
    obtain bt bv where b: "min_from (rank_key t) c cs = (bt, bv)"
      by (cases "min_from (rank_key t) c cs")
    show ?thesis using Cons Cons.IH by (simp add: tr py_min_def Let_def b)
  qed
qed

lemma align_loop_far:
  assumes "py_min (rank_key t) (cands snaps t) = Inr best" "gap < \<bar>fst best - t\<bar>"
  shows "align_loop gap snaps [(t, row)] = []"
  using assms by (cases "cands snaps t") (auto simp: py_min_def Let_def)

lemma align_loop_sorted_empty:
  assumes s: "sorted (map fst snaps)"
  shows "align_loop gap snaps [(t, row)] = [] \<longleftrightarrow> (\<forall>s \<in> set snaps. gap < \<bar>fst s - t\<bar>)"
proof (cases "snaps = []")
  case True
  then show ?thesis by (simp add: cands_def bisect_left_def bisect_left_loop.simps)
next
  case False
  from nearest_sorted_ex [OF s False, of t] obtain best where
    b: "best \<in> set snaps" "py_min (rank_key t) (cands snaps t) = Inr best"
       "\<forall>x \<in> set snaps. \<bar>fst best - t\<bar> \<le> \<bar>fst x - t\<bar>" by blast
  have "align_loop gap snaps [(t, row)] = [] \<longleftrightarrow> gap < \<bar>fst best - t\<bar>"
    unfolding align_loop_single [OF b(2), of gap row] by auto
  also have "\<dots> \<longleftrightarrow> (\<forall>s \<in> set snaps. gap < \<bar>fst s - t\<bar>)"
  proof
    assume g: "gap < \<bar>fst best - t\<bar>"
    show "\<forall>s \<in> set snaps. gap < \<bar>fst s - t\<bar>"
    proof
      fix x assume "x \<in> set snaps"
      with b(3) have "\<bar>fst best - t\<bar> \<le> \<bar>fst x - t\<bar>" by blast
      with g show "gap < \<bar>fst x - t\<bar>" by linarith
    qed
  next
    assume "\<forall>s \<in> set snaps. gap < \<bar>fst s - t\<bar>"
    with b(1) show "gap < \<bar>fst best - t\<bar>" by blast
  qed
  finally show ?thesis .
qed

lemma pick_closest_rate_cand:
  assumes ne: "hist \<noteq> []"
  shows "\<exists>best \<in> set (cands hist t).
           (\<forall>c \<in> set (cands hist t).
              \<bar>fst best - t\<bar> < \<bar>fst c - t\<bar> \<or>
              (\<bar>fst best - t\<bar> = \<bar>fst c - t\<bar> \<and>
               (if fst best \<le> t then 0 else 1) \<le> (if fst c \<le> t then 0 :: nat else 1))) \<and>
           pick_closest_rate hist t = Inr (Some (snd best))"
proof -
  from py_min_cands [OF ne, of t] obtain best where
    b: "best \<in> set (cands hist t)"
       "\<forall>c \<in> set (cands hist t). tuple_le (rank_key t best) (rank_key t c)"
       "py_min (rank_key t) (cands hist t) = Inr best" by blast
  from b(2) have "\<forall>c \<in> set (cands hist t).
              \<bar>fst best - t\<bar> < \<bar>fst c - t\<bar> \<or>
              (\<bar>fst best - t\<bar> = \<bar>fst c - t\<bar> \<and>
               (if fst best \<le> t then 0 else 1) \<le> (if fst c \<le> t then 0 :: nat else 1))"
    by (simp add: tuple_le_def rank_key_def)
  with b(1) pick_closest_rate_py_min [OF b(3) ne] show ?thesis by blast
qed

lemma pick_closest_rate_nearest:
  assumes s: "sorted (map fst hist)" and ne: "hist \<noteq> []"
  shows "\<exists>best \<in> set hist. pick_closest_rate hist t = Inr (Some (snd best)) \<and>
           (\<forall>s \<in> set hist. \<bar>fst best - t\<bar> \<le> \<bar>fst s - t\<bar>)"
proof -
  from nearest_sorted_ex [OF s ne, of t] obtain best where
    b: "best \<in> set hist" "py_min (rank_key t) (cands hist t) = Inr best"
       "\<forall>x \<in> set hist. \<bar>fst best - t\<bar> \<le> \<bar>fst x - t\<bar>" by blast
  with pick_closest_rate_py_min [OF b(2) ne] show ?thesis by blast
qed

lemma pick_far: "pick_closest_rate [(100, 0.1)] 5000 = Inr (Some 0.1)"
  by (simp add: pick_closest_rate_def cands_def bisect_left_def bisect_left_loop.simps py_min_def min_from_def)

lemma align_far: "align_loop 1000 [(100, 0.1)] [(5000, row)] = []"
  by (simp add: cands_def bisect_left_def bisect_left_loop.simps min_from_def)

text \<open>
  Claim C2, as stated, fails for the Binance interest lookup: \<^verbatim>\<open>pick_closest_rate\<close>
  has no gap parameter and returns the value of the chosen sample however far it is.
  With the series \<open>[(100, 0.1)]\<close> and the target 5000 the distance 4900 exceeds a
  tolerance of 1000, and the value 0.1 is returned.
\<close>

theorem gap_policy_counterexample:
  "(1000 :: int) < \<bar>100 - 5000\<bar> \<and> pick_closest_rate [(100, 0.1)] 5000 = Inr (Some 0.1)"
  by (simp add: pick_far)

text \<open>
  Claim C2, amended. The gap policy belongs to the reconciliation pass only. The rows
  the update loop writes are, in order, exactly the targets whose chosen candidate lies
  within \<open>gap\<close> of the target; a target whose chosen candidate is farther away yields
  no update; over a series sorted by timestamp, as the pass sorts it, a target yields
  no update exactly when every sample is farther than \<open>gap\<close> from it; the pass, when
  no stored date makes \<^verbatim>\<open>_to_ms\<close> raise, runs the loop with a gap of 48 hours
  (172800000 ms); and for \<open>S = [(100, 0.1)]\<close>, a tolerance of 1000 and the target 5000
  no update is produced. \<^verbatim>\<open>pick_closest_rate\<close> applies no gap: it returns
  \<^verbatim>\<open>None\<close> for an empty history only; for a non-empty history it returns the value
  of the candidate chosen by distance and tie rank, however far; and for a history
  sorted by timestamp, as \<^verbatim>\<open>bn_interest_history\<close> returns it, that is the value of
  a sample no other sample is nearer to the target than.
\<close>

theorem gap_policy_reconciliation:
  "map fst (align_loop gap snaps targets) =
     map snd (filter (\<lambda>(t, row). \<exists>best. py_min (rank_key t) (cands snaps t) = Inr best \<and>
                                     \<bar>fst best - t\<bar> \<le> gap) targets) \<and>
   (py_min (rank_key t) (cands snaps t) = Inr best \<and> gap < \<bar>fst best - t\<bar> \<longrightarrow>
      align_loop gap snaps [(t, row)] = []) \<and>
   (sorted (map fst snaps) \<longrightarrow>
      (align_loop gap snaps [(t, row)] = [] \<longleftrightarrow> (\<forall>s \<in> set snaps. gap < \<bar>fst s - t\<bar>))) \<and>
   align_updates timestamp float_of vals =
     (case classify_rows timestamp float_of 2 vals of
        Inl e \<Rightarrow> Inl e
      | Inr (snaps, targets) \<Rightarrow>
          Inr (if snaps = [] \<or> targets = [] then []
               else align_loop 172800000 (sort_key fst snaps) targets)) \<and>
   align_loop 1000 [(100, 0.1)] [(5000, row)] = [] \<and>
   pick_closest_rate [] ts = Inr None \<and>
   (hist \<noteq> [] \<longrightarrow>
      (\<exists>best \<in> set (cands hist ts).
         (\<forall>c \<in> set (cands hist ts).
            \<bar>fst best - ts\<bar> < \<bar>fst c - ts\<bar> \<or>
            (\<bar>fst best - ts\<bar> = \<bar>fst c - ts\<bar> \<and>
             (if fst best \<le> ts then 0 else 1) \<le> (if fst c \<le> ts then 0 :: nat else 1))) \<and>
         pick_closest_rate hist ts = Inr (Some (snd best)))) \<and>
   (sorted (map fst hist) \<and> hist \<noteq> [] \<longrightarrow>
      (\<exists>best \<in> set hist. pick_closest_rate hist ts = Inr (Some (snd best)) \<and>
         (\<forall>s \<in> set hist. \<bar>fst best - ts\<bar> \<le> \<bar>fst s - ts\<bar>)))"
proof (intro conjI impI)
  show "map fst (align_loop gap snaps targets) =
     map snd (filter (\<lambda>(t, row). \<exists>best. py_min (rank_key t) (cands snaps t) = Inr best \<and>
                                     \<bar>fst best - t\<bar> \<le> gap) targets)"
    by (rule align_loop_rows)
next
  assume "py_min (rank_key t) (cands snaps t) = Inr best \<and> gap < \<bar>fst best - t\<bar>"
  then show "align_loop gap snaps [(t, row)] = []" using align_loop_far by blast
next
  assume "sorted (map fst snaps)"
  then show "align_loop gap snaps [(t, row)] = [] \<longleftrightarrow> (\<forall>s \<in> set snaps. gap < \<bar>fst s - t\<bar>)"
    by (rule align_loop_sorted_empty)
next
  show "align_updates timestamp float_of vals =
     (case classify_rows timestamp float_of 2 vals of
        Inl e \<Rightarrow> Inl e
      | Inr (snaps, targets) \<Rightarrow>
          Inr (if snaps = [] \<or> targets = [] then []
               else align_loop 172800000 (sort_key fst snaps) targets))"
    by (cases "vals = []")
       (simp_all add: align_updates_def BYBIT_ALIGN_MAX_GAP_HOURS_def Let_def
          split: sum.split prod.split)
next
  show "align_loop 1000 [(100, 0.1)] [(5000, row)] = []" by (rule align_far)
next
  show "pick_closest_rate [] ts = Inr None" by (simp add: pick_closest_rate_def)
next
  assume "hist \<noteq> []"
  then show "\<exists>best \<in> set (cands hist ts).
         (\<forall>c \<in> set (cands hist ts).
            \<bar>fst best - ts\<bar> < \<bar>fst c - ts\<bar> \<or>
            (\<bar>fst best - ts\<bar> = \<bar>fst c - ts\<bar> \<and>
             (if fst best \<le> ts then 0 else 1) \<le> (if fst c \<le> ts then 0 :: nat else 1))) \<and>
         pick_closest_rate hist ts = Inr (Some (snd best))"
    by (rule pick_closest_rate_cand)
next
  assume "sorted (map fst hist) \<and> hist \<noteq> []"
  then show "\<exists>best \<in> set hist. pick_closest_rate hist ts = Inr (Some (snd best)) \<and>
         (\<forall>s \<in> set hist. \<bar>fst best - ts\<bar> \<le> \<bar>fst s - ts\<bar>)"
    using pick_closest_rate_nearest by blast
qed

theorem gap_policy_reconciliation_witness:
  "py_min (rank_key 5000) (cands [(100, 0.1 :: real)] 5000) = Inr (100, 0.1) \<and>
   (1000 :: int) < \<bar>fst (100 :: int, 0.1 :: real) - 5000\<bar> \<and>
   sorted (map fst [(100 :: int, 0.1 :: real)]) \<and>
   align_loop 1000 [(100, 0.1)] [(5000, 2)] = [] \<and>
   [(100 :: int, 0.1 :: real)] \<noteq> [] \<and>
   pick_closest_rate [(100, 0.1)] 5000 = Inr (Some 0.1)"
proof -
  note T = gap_policy_reconciliation [of 1000 "[(100, 0.1)]" "[(5000, 2)]" 5000 "(100, 0.1)" 2 _ _ _ _ "[(100, 0.1)]"]
  have m: "py_min (rank_key 5000) (cands [(100, 0.1 :: real)] 5000) = Inr (100, 0.1)"
    by (simp add: cands_def bisect_left_def bisect_left_loop.simps py_min_def min_from_def)
  have far: "(1000 :: int) < \<bar>fst (100 :: int, 0.1 :: real) - 5000\<bar>" by simp
  have s: "sorted (map fst [(100 :: int, 0.1 :: real)])" by simp
  have ne: "[(100 :: int, 0.1 :: real)] \<noteq> []" by simp
  from T m far have 1: "align_loop 1000 [(100, 0.1)] [(5000, 2)] = []" by blast
  from T s have "align_loop 1000 [(100, 0.1)] [(5000, 2)] = [] \<longleftrightarrow>
      (\<forall>s \<in> set [(100 :: int, 0.1 :: real)]. 1000 < \<bar>fst s - 5000\<bar>)" by blast
  from T s ne have "\<exists>best \<in> set [(100 :: int, 0.1 :: real)].
      pick_closest_rate [(100, 0.1)] 5000 = Inr (Some (snd best))" by blast
  then have 2: "pick_closest_rate [(100, 0.1)] 5000 = Inr (Some 0.1)" by simp
  from T ne have "\<exists>best \<in> set (cands [(100 :: int, 0.1 :: real)] 5000).
      pick_closest_rate [(100, 0.1)] 5000 = Inr (Some (snd best))" by blast
  from m far s 1 ne 2 show ?thesis by blast
qed

section \<open>The quota-gated executor: attempts and delays\<close>

lemma state_after_shift: "state_after fn (snd (fn s)) k = state_after fn s (Suc k)"
  by (induction k) simp_all

lemma outcome_at_shift: "outcome_at fn (snd (fn s)) k = outcome_at fn s (Suc k)"
  using state_after_shift [of fn s k] by (simp add: outcome_at_def)

lemma retryable_cases:
  "retryable r \<longleftrightarrow> (\<exists>msg. r = Inl (APIError msg) \<and> rate_limited msg)"
  by (auto simp: retryable_def split: sum.splits exn.splits)

lemma gs_retry_loop_step:
  assumes "retryable (fst (fn s))"
  shows "gs_retry_loop fn (Suc n) delay s slept =
         gs_retry_loop fn n (delay * 2) (snd (fn s)) (slept @ [delay])"
proof -
  from assms obtain msg where m: "fst (fn s) = Inl (APIError msg)" "rate_limited msg"
    by (auto simp: retryable_cases)
  then show ?thesis by (cases "fn s") (simp add: gs_retry_loop.simps)
qed

lemma gs_retry_loop_stop:
  assumes "\<not> retryable (fst (fn s))"
  shows "gs_retry_loop fn (Suc n) delay s slept = (fst (fn s), snd (fn s), slept)"
proof (cases "fn s")
  case (Pair r s')
  with assms show ?thesis
    by (cases r) (auto simp: retryable_def gs_retry_loop.simps split: exn.splits)
qed

lemma gs_retry_loop_last: "gs_retry_loop fn 0 delay s slept = (fst (fn s), snd (fn s), slept)"
  by (cases "fn s") (simp add: gs_retry_loop.simps)

lemma upt_shift_map: "map f [Suc 0..<Suc k] = map (\<lambda>i. f (Suc i)) [0..<k]"
  by (induction k) simp_all

lemma gs_retry_loop_attempts:
  assumes "k \<le> n" "\<forall>i<k. retryable (outcome_at fn s i)"
    and "k < n \<longrightarrow> \<not> retryable (outcome_at fn s k)"
  shows "gs_retry_loop fn n delay s slept =
         (outcome_at fn s k, state_after fn s (Suc k), slept @ map (\<lambda>i. delay * 2 ^ i) [0..<k])"
  using assms
proof (induction n arbitrary: k delay s slept)
  case 0
  then show ?case by (simp add: gs_retry_loop_last outcome_at_def)
next
  case (Suc n)
  show ?case
  proof (cases k)
    case 0
    with Suc.prems have "\<not> retryable (fst (fn s))" by (simp add: outcome_at_def)
    then show ?thesis using 0 by (simp add: gs_retry_loop_stop outcome_at_def)
  next
    case (Suc j)
    with Suc.prems have r0: "retryable (fst (fn s))" by (auto simp: outcome_at_def)
    have a: "j \<le> n" using Suc Suc.prems by simp
    have b: "\<forall>i<j. retryable (outcome_at fn (snd (fn s)) i)"
      using Suc Suc.prems by (simp add: outcome_at_shift)
    have c: "j < n \<longrightarrow> \<not> retryable (outcome_at fn (snd (fn s)) j)"
      using Suc Suc.prems by (simp add: outcome_at_shift)
    have "gs_retry_loop fn (Suc n) delay s slept =
          gs_retry_loop fn n (delay * 2) (snd (fn s)) (slept @ [delay])"
      using r0 by (rule gs_retry_loop_step [of fn s n delay slept])
    also have "\<dots> = (outcome_at fn (snd (fn s)) j, state_after fn (snd (fn s)) (Suc j),
                    (slept @ [delay]) @ map (\<lambda>i. delay * 2 * 2 ^ i) [0..<j])"
      by (rule Suc.IH [OF a b c])
    also have "\<dots> = (outcome_at fn s k, state_after fn s (Suc k),
                    slept @ map (\<lambda>i. delay * 2 ^ i) [0..<k])"
    proof -
      have "map (\<lambda>i. delay * 2 ^ i) [0..<Suc j] = delay # map (\<lambda>i. delay * 2 * 2 ^ i) [0..<j]"
        by (simp add: upt_rec [of 0 "Suc j"] upt_shift_map del: upt_Suc) 
      then show ?thesis
        using Suc state_after_shift [of fn s "Suc j"] by (simp add: outcome_at_shift del: upt_Suc state_after.simps)
    qed
    finally show ?thesis .
  qed
qed

lemma upt6: "[0..<6] = [0, 1, 2, 3, 4, 5 :: nat]"
  by code_simp

lemma delays6: "map (\<lambda>i. (1 :: real) * 2 ^ i) [0..<6] = [1, 2, 4, 8, 16, 32]"
  by (simp add: upt6)

text \<open>
  Claim C5. Let \<open>k\<close> be the number of leading calls that fail with a rate-limit error,
  at most 6. Then \<^verbatim>\<open>gs_retry\<close> makes exactly \<open>k + 1\<close> calls, sleeps
  \<open>1, 2, 4, ...\<close> (\<open>k\<close> delays, each before the next call) and ends with what call
  number \<open>k\<close> returns or raises. So six rate-limit failures give the delays
  \<open>1, 2, 4, 8, 16, 32\<close> and one last, unguarded call whose result, also a failure,
  is the result; a first call that succeeds or fails otherwise ends the function at
  once with no sleep. A failure is rate-limit exactly when it is an \<^verbatim>\<open>APIError\<close>
  whose message contains \<^verbatim>\<open>429\<close> or \<^verbatim>\<open>Quota exceeded\<close>.
\<close>

theorem gs_retry_attempts:
  "(k \<le> 6 \<and> (\<forall>i<k. retryable (outcome_at fn s i)) \<and> (k < 6 \<longrightarrow> \<not> retryable (outcome_at fn s k)) \<longrightarrow>
      gs_retry fn s = (outcome_at fn s k, state_after fn s (Suc k), map (\<lambda>i. 2 ^ i) [0..<k])) \<and>
   ((\<forall>i<6. retryable (outcome_at fn s i)) \<longrightarrow>
      gs_retry fn s = (outcome_at fn s 6, state_after fn s 7, [1, 2, 4, 8, 16, 32])) \<and>
   (\<not> retryable (outcome_at fn s 0) \<longrightarrow> gs_retry fn s = (outcome_at fn s 0, state_after fn s 1, [])) \<and>
   (retryable r \<longleftrightarrow> (\<exists>msg. r = Inl (APIError msg) \<and> (contains ''429'' msg \<or> contains ''Quota exceeded'' msg)))"
proof (intro conjI impI)
  assume h: "k \<le> 6 \<and> (\<forall>i<k. retryable (outcome_at fn s i)) \<and> (k < 6 \<longrightarrow> \<not> retryable (outcome_at fn s k))"
  then show "gs_retry fn s = (outcome_at fn s k, state_after fn s (Suc k), map (\<lambda>i. 2 ^ i) [0..<k])"
    using gs_retry_loop_attempts [of k 6 fn s 1 "[]"] by (simp add: gs_retry_def)
next
  assume h: "\<forall>i<6. retryable (outcome_at fn s i)"
  have "gs_retry fn s = (outcome_at fn s 6, state_after fn s (Suc 6), [] @ map (\<lambda>i. 1 * 2 ^ i) [0..<6])"
    unfolding gs_retry_def by (rule gs_retry_loop_attempts) (use h in simp_all)
  then show "gs_retry fn s = (outcome_at fn s 6, state_after fn s 7, [1, 2, 4, 8, 16, 32])"
    by (simp only: delays6 append_Nil) simp
next
  assume h: "\<not> retryable (outcome_at fn s 0)"
  show "gs_retry fn s = (outcome_at fn s 0, state_after fn s 1, [])"
    using gs_retry_loop_attempts [of 0 6 fn s 1 "[]"] h by (simp add: gs_retry_def)
next
  show "retryable r \<longleftrightarrow> (\<exists>msg. r = Inl (APIError msg) \<and> (contains ''429'' msg \<or> contains ''Quota exceeded'' msg))"
    by (simp add: retryable_cases rate_limited_def)
qed

theorem gs_retry_attempts_witness:
  "retryable (outcome_at (\<lambda>n :: nat. (Inl (APIError ''HTTP 429'') :: exn + nat, Suc n)) 0 0) \<and>
   retryable (outcome_at (\<lambda>n :: nat. (Inl (APIError ''HTTP 429'') :: exn + nat, Suc n)) 0 5) \<and>
   gs_retry (\<lambda>n :: nat. (Inl (APIError ''HTTP 429'') :: exn + nat, Suc n)) 0 =
     (Inl (APIError ''HTTP 429''), 7, [1, 2, 4, 8, 16, 32]) \<and>
   \<not> retryable (outcome_at (\<lambda>n :: nat. (Inl (APIError ''403 Forbidden'') :: exn + nat, Suc n)) 0 0) \<and>
   gs_retry (\<lambda>n :: nat. (Inl (APIError ''403 Forbidden'') :: exn + nat, Suc n)) 0 =
     (Inl (APIError ''403 Forbidden''), 1, []) \<and>
   gs_retry (\<lambda>n :: nat. (if n < 2 then Inl (APIError ''Quota exceeded'') else Inr n, Suc n)) 0 =
     (Inr 2, 3, [1, 2])"
proof -
  let ?f = "\<lambda>n :: nat. (Inl (APIError ''HTTP 429'') :: exn + nat, Suc n)"
  let ?g = "\<lambda>n :: nat. (Inl (APIError ''403 Forbidden'') :: exn + nat, Suc n)"
  let ?h = "\<lambda>n :: nat. (if n < 2 then Inl (APIError ''Quota exceeded'') else Inr n :: exn + nat, Suc n)"
  have sf: "state_after ?f 0 k = k" for k by (induction k) simp_all
  have sg: "state_after ?g 0 k = k" for k by (induction k) simp_all
  have sh: "state_after ?h 0 k = k" for k by (induction k) simp_all
  have rf: "\<forall>i<6. retryable (outcome_at ?f 0 i)"
    by (simp add: outcome_at_def retryable_def rate_limited_def)
  have rg: "\<not> retryable (outcome_at ?g 0 0)"
    by (simp add: outcome_at_def retryable_def rate_limited_def)
  have rh: "(2 :: nat) \<le> 6 \<and> (\<forall>i<2. retryable (outcome_at ?h 0 i)) \<and> ((2 :: nat) < 6 \<longrightarrow> \<not> retryable (outcome_at ?h 0 2))"
    by (simp add: outcome_at_def sh retryable_def rate_limited_def)
  have u2: "[0..<2] = [0, 1 :: nat]" by code_simp
  from rf gs_retry_attempts [of _ ?f 0] have 1: "gs_retry ?f 0 = (outcome_at ?f 0 6, state_after ?f 0 7, [1, 2, 4, 8, 16, 32])"
    by blast
  from rg gs_retry_attempts [of _ ?g 0] have 2: "gs_retry ?g 0 = (outcome_at ?g 0 0, state_after ?g 0 1, [])"
    by blast
  from rh gs_retry_attempts [of 2 ?h 0] have 3: "gs_retry ?h 0 = (outcome_at ?h 0 2, state_after ?h 0 (Suc 2), map (\<lambda>i. 2 ^ i) [0..<2])"
    by blast
  from rf have rf0: "retryable (outcome_at ?f 0 0)" and rf5: "retryable (outcome_at ?f 0 5)"
    by simp_all
  show ?thesis
    using rf0 rf5 rg 1 2 3 by (simp add: outcome_at_def sf sg sh u2 del: state_after.simps)
qed

section \<open>Loan arithmetic: the two metrics\<close>

text \<open>
  Claim C8. \<^verbatim>\<open>collateral_needed_usdt\<close> is \<open>loan_usd / init_ltv\<close> for a non-zero loan
  and a positive initial LTV, and \<^verbatim>\<open>None\<close> when the loan is absent or zero or the
  LTV is absent or not positive. \<^verbatim>\<open>liquidation_start_price\<close> is
  \<open>spot * (liq_ltv / init_ltv)\<close> for a positive spot and non-zero LTVs, and
  \<^verbatim>\<open>None\<close> when the spot is absent or not positive or an LTV is absent or zero.
  The two examples of the specification evaluate to 2000 and 80. (Floats are read as
  real numbers.)
\<close>

theorem loan_metrics:
  "(loan_usd \<noteq> 0 \<and> 0 < init_ltv \<longrightarrow>
      collateral_needed_usdt (Some loan_usd) (Some init_ltv) = Some (loan_usd / init_ltv)) \<and>
   (loan = None \<or> loan = Some 0 \<or> ltv = None \<or> (\<exists>x. ltv = Some x \<and> x \<le> 0) \<longrightarrow>
      collateral_needed_usdt loan ltv = None) \<and>
   (0 < spot \<and> init_ltv \<noteq> 0 \<and> liq_ltv \<noteq> 0 \<longrightarrow>
      liquidation_start_price (Some spot) (Some init_ltv) (Some liq_ltv) =
        Some (spot * (liq_ltv / init_ltv))) \<and>
   (sp = None \<or> (\<exists>x. sp = Some x \<and> x \<le> 0) \<or> ltv = None \<or> ltv = Some 0 \<or>
      liq = None \<or> liq = Some 0 \<longrightarrow>
      liquidation_start_price sp ltv liq = None) \<and>
   collateral_needed_usdt (Some 1000) (Some 0.5) = Some 2000 \<and>
   liquidation_start_price (Some 100) (Some 0.5) (Some 0.4) = Some 80"
proof (intro conjI impI)
  assume "loan_usd \<noteq> 0 \<and> 0 < init_ltv"
  then show "collateral_needed_usdt (Some loan_usd) (Some init_ltv) = Some (loan_usd / init_ltv)"
    by simp
next
  assume "loan = None \<or> loan = Some 0 \<or> ltv = None \<or> (\<exists>x. ltv = Some x \<and> x \<le> 0)"
  then show "collateral_needed_usdt loan ltv = None"
    by (cases loan; cases ltv) auto
next
  assume "0 < spot \<and> init_ltv \<noteq> 0 \<and> liq_ltv \<noteq> 0"
  then show "liquidation_start_price (Some spot) (Some init_ltv) (Some liq_ltv) =
        Some (spot * (liq_ltv / init_ltv))"
    by simp
next
  assume "sp = None \<or> (\<exists>x. sp = Some x \<and> x \<le> 0) \<or> ltv = None \<or> ltv = Some 0 \<or>
      liq = None \<or> liq = Some 0"
  then show "liquidation_start_price sp ltv liq = None"
    by (cases sp; cases ltv; cases liq) auto
next
  show "collateral_needed_usdt (Some 1000) (Some 0.5) = Some 2000" by simp
  show "liquidation_start_price (Some 100) (Some 0.5) (Some 0.4) = Some 80" by simp
qed

theorem loan_metrics_witness:
  "(1000 :: real) \<noteq> 0 \<and> (0 :: real) < 0.5 \<and>
   collateral_needed_usdt (Some 1000) (Some 0.5) = Some (1000 / 0.5) \<and>
   collateral_needed_usdt (Some 1000) (Some 0) = None \<and>
   (0 :: real) < 100 \<and> (0.5 :: real) \<noteq> 0 \<and> (0.4 :: real) \<noteq> 0 \<and>
   liquidation_start_price (Some 100) (Some 0.5) (Some 0.4) = Some (100 * (0.4 / 0.5)) \<and>
   liquidation_start_price (Some 100) (Some 0) (Some 0.4) = None"
proof -
  note T = loan_metrics [where loan_usd = 1000 and init_ltv = "0.5" and loan = "Some 1000"
      and ltv = "Some 0" and spot = 100 and liq_ltv = "0.4" and sp = "Some 100" and liq = "Some 0.4"]
  have h1: "(1000 :: real) \<noteq> 0 \<and> (0 :: real) < 0.5" by simp
  have h2: "Some (1000 :: real) = None \<or> Some (1000 :: real) = Some 0 \<or> Some (0 :: real) = None \<or>
            (\<exists>x. Some (0 :: real) = Some x \<and> x \<le> 0)" by simp
  have h3: "(0 :: real) < 100 \<and> (0.5 :: real) \<noteq> 0 \<and> (0.4 :: real) \<noteq> 0" by simp
  have h4: "Some (100 :: real) = None \<or> (\<exists>x. Some (100 :: real) = Some x \<and> x \<le> 0) \<or>
            Some (0 :: real) = None \<or> Some (0 :: real) = Some 0 \<or>
            Some (0.4 :: real) = None \<or> Some (0.4 :: real) = Some 0" by simp
  from T h1 have 1: "collateral_needed_usdt (Some 1000) (Some 0.5) = Some (1000 / 0.5)" by blast
  from T h2 have 2: "collateral_needed_usdt (Some 1000) (Some 0) = None" by blast
  from T h3 have 3: "liquidation_start_price (Some 100) (Some 0.5) (Some 0.4) = Some (100 * (0.4 / 0.5))" by blast
  from T h4 have 4: "liquidation_start_price (Some 100) (Some 0) (Some 0.4) = None" by blast
  from h1 h3 1 2 3 4 show ?thesis by blast
qed

section \<open>The reconciliation pass: what it may write\<close>

lemma classify_rows_targets:
  "classify_rows timestamp float_of i vals = Inr (sn, tg) \<Longrightarrow> (t, r) \<in> set tg \<Longrightarrow>
   i \<le> r \<and> r < i + length vals \<and> cell_at (vals ! (r - i)) 0 \<noteq> [] \<and>
   strip (cell_at (vals ! (r - i)) 1) \<noteq> [] \<and> strip (cell_at (vals ! (r - i)) 3) = []"
proof (induction vals arbitrary: i sn tg)
  case Nil
  then show ?case by simp
next
  case (Cons row rows)
  from Cons.prems consider
      (here) "r = i" "cell_at row 0 \<noteq> []" "strip (cell_at row 1) \<noteq> []" "strip (cell_at row 3) = []"
    | (later) sn' tg' where "classify_rows timestamp float_of (Suc i) rows = Inr (sn', tg')"
        "(t, r) \<in> set tg'"
    by (auto simp: Let_def split: if_splits option.splits sum.splits prod.splits)
  then show ?case
  proof cases
    case here
    then show ?thesis by simp
  next
    case later
    from Cons.IH [OF later] have ih: "Suc i \<le> r" "r < Suc i + length rows"
      "cell_at (rows ! (r - Suc i)) 0 \<noteq> []" "strip (cell_at (rows ! (r - Suc i)) 1) \<noteq> []"
      "strip (cell_at (rows ! (r - Suc i)) 3) = []" by simp_all
    have "r - i = Suc (r - Suc i)" using ih(1) by arith
    then have nth: "(row # rows) ! (r - i) = rows ! (r - Suc i)" by simp
    show ?thesis using ih by (simp add: nth)
  qed
qed

lemma align_loop_row_target:
  assumes "(r, v) \<in> set (align_loop gap snaps targets)"
  shows "\<exists>t. (t, r) \<in> set targets"
proof -
  from assms have "r \<in> set (map fst (align_loop gap snaps targets))" by force
  then have "r \<in> set (map snd (filter (\<lambda>(t, row). \<exists>best. py_min (rank_key t) (cands snaps t) = Inr best \<and>
                                   \<bar>fst best - t\<bar> \<le> gap) targets))"
  proof (induction targets)
    case Nil
    then show ?case by simp
  next
    case (Cons tr rest)
    obtain t row where tr: "tr = (t, row)" by (cases tr)
    show ?case
    proof (cases "cands snaps t")
      case Nil
      then show ?thesis using Cons by (simp add: tr py_min_def)
    next
      case c: (Cons c cs)
      obtain bt bv where b: "min_from (rank_key t) c cs = (bt, bv)"
        by (cases "min_from (rank_key t) c cs")
      show ?thesis using Cons c by (auto simp: tr py_min_def Let_def b split: if_splits)
    qed
  qed
  then show ?thesis by auto
qed

lemma align_updates_rows:
  assumes "align_updates timestamp float_of vals = Inr us" "(r, v) \<in> set us"
  shows "2 \<le> r \<and> r < 2 + length vals \<and> cell_at (vals ! (r - 2)) 0 \<noteq> [] \<and>
         strip (cell_at (vals ! (r - 2)) 1) \<noteq> [] \<and> strip (cell_at (vals ! (r - 2)) 3) = []"
proof -
  from assms obtain sn tg where c: "classify_rows timestamp float_of 2 vals = Inr (sn, tg)"
    and "(r, v) \<in> set (align_loop (BYBIT_ALIGN_MAX_GAP_HOURS * 3600 * 1000) (sort_key fst sn) tg)"
    by (auto simp: align_updates_def Let_def split: if_splits sum.splits prod.splits)
  then obtain t where "(t, r) \<in> set tg" using align_loop_row_target by blast
  from classify_rows_targets [OF c this] show ?thesis by simp
qed

lemma apply_updates_frame:
  "foldl (\<lambda>sh (row_idx, val). update_cell sh row_idx 4 val) sh us (r, c) \<noteq> sh (r, c) \<Longrightarrow>
   c = 4 \<and> (\<exists>v. (r, v) \<in> set us \<and>
              foldl (\<lambda>sh (row_idx, val). update_cell sh row_idx 4 val) sh us (r, c) = PFloat v)"
proof (induction us arbitrary: sh)
  case Nil
  then show ?case by simp
next
  case (Cons u us)
  obtain r' v' where u: "u = (r', v')" by (cases u)
  let ?sh1 = "update_cell sh r' 4 v'"
  let ?res = "foldl (\<lambda>sh (row_idx, val). update_cell sh row_idx 4 val) ?sh1 us (r, c)"
  have res: "foldl (\<lambda>sh (row_idx, val). update_cell sh row_idx 4 val) sh (u # us) (r, c) = ?res"
    by (simp add: u)
  show ?case
  proof (cases "?res = ?sh1 (r, c)")
    case True
    with Cons.prems res have ne: "?sh1 (r, c) \<noteq> sh (r, c)" by simp
    then have rc: "r = r' \<and> c = 4" by (auto simp: update_cell_def split: if_splits)
    then have "?sh1 (r, c) = PFloat v'" by (simp add: update_cell_def)
    with True rc res show ?thesis by (auto simp: u)
  next
    case False
    from Cons.IH [OF this] res show ?thesis by auto
  qed
qed

text \<open>
  Claim C4. A cell is empty, as the code tests it, when nothing is left of its text
  after \<^verbatim>\<open>strip()\<close>. Every update the pass builds from the snapshot \<^verbatim>\<open>A2:D\<close>
  names a row of the snapshot whose date cell is not the empty string, whose funding
  cell (column B) is not empty and whose interest cell (column D) is empty. Applying
  the updates changes a cell of the sheet only if it is the column 4 cell of such a
  row, and then to the value of one of the updates; every other cell keeps its value.
  When reading a stored date raises, the pass raises before any update and the sheet
  is as it was.
  (The updates are taken to succeed; a call that raises leaves the later ones undone.)
\<close>

theorem reconciliation_frame:
  "(align_updates timestamp float_of vals = Inr us \<longrightarrow>
      (\<forall>(r, v) \<in> set us.
         2 \<le> r \<and> r < 2 + length vals \<and> cell_at (vals ! (r - 2)) 0 \<noteq> [] \<and>
         strip (cell_at (vals ! (r - 2)) 1) \<noteq> [] \<and> strip (cell_at (vals ! (r - 2)) 3) = [])) \<and>
   (snd (align_bybit_interest_to_funding timestamp float_of ws sh) (r, c) \<noteq> sh (r, c) \<longrightarrow>
      c = 4 \<and> 2 \<le> r \<and> r < 2 + length (ws_A2D ws) \<and>
      strip (cell_at (ws_A2D ws ! (r - 2)) 1) \<noteq> [] \<and>
      strip (cell_at (ws_A2D ws ! (r - 2)) 3) = [] \<and>
      (\<exists>us' v. align_updates timestamp float_of (ws_A2D ws) = Inr us' \<and> (r, v) \<in> set us' \<and>
           snd (align_bybit_interest_to_funding timestamp float_of ws sh) (r, c) = PFloat v)) \<and>
   (align_updates timestamp float_of (ws_A2D ws) = Inl e \<longrightarrow>
      align_bybit_interest_to_funding timestamp float_of ws sh = (Inl e, sh))"
proof (intro conjI impI)
  assume "align_updates timestamp float_of vals = Inr us"
  then show "\<forall>(r, v) \<in> set us.
      2 \<le> r \<and> r < 2 + length vals \<and> cell_at (vals ! (r - 2)) 0 \<noteq> [] \<and>
      strip (cell_at (vals ! (r - 2)) 1) \<noteq> [] \<and> strip (cell_at (vals ! (r - 2)) 3) = []"
    using align_updates_rows by blast
next
  assume ch: "snd (align_bybit_interest_to_funding timestamp float_of ws sh) (r, c) \<noteq> sh (r, c)"
  then obtain us' where us: "align_updates timestamp float_of (ws_A2D ws) = Inr us'"
    by (cases "align_updates timestamp float_of (ws_A2D ws)")
       (simp_all add: align_bybit_interest_to_funding_def)
  then have res: "snd (align_bybit_interest_to_funding timestamp float_of ws sh) =
      foldl (\<lambda>sh (row_idx, val). update_cell sh row_idx 4 val) sh us'"
    by (simp add: align_bybit_interest_to_funding_def)
  from ch have f: "foldl (\<lambda>sh (row_idx, val). update_cell sh row_idx 4 val) sh us' (r, c) \<noteq> sh (r, c)"
    by (simp add: res)
  from apply_updates_frame [OF f] obtain v where v: "c = 4" "(r, v) \<in> set us'"
    "foldl (\<lambda>sh (row_idx, val). update_cell sh row_idx 4 val) sh us' (r, c) = PFloat v" by blast
  note rows = align_updates_rows [OF us v(2)]
  show "c = 4" by (rule v(1))
  show "2 \<le> r" "r < 2 + length (ws_A2D ws)" "strip (cell_at (ws_A2D ws ! (r - 2)) 1) \<noteq> []"
       "strip (cell_at (ws_A2D ws ! (r - 2)) 3) = []" using rows by simp_all
  show "\<exists>us' v. align_updates timestamp float_of (ws_A2D ws) = Inr us' \<and> (r, v) \<in> set us' \<and>
           snd (align_bybit_interest_to_funding timestamp float_of ws sh) (r, c) = PFloat v"
    using us v(2,3) res by auto
next
  assume "align_updates timestamp float_of (ws_A2D ws) = Inl e"
  then show "align_bybit_interest_to_funding timestamp float_of ws sh = (Inl e, sh)"
    by (simp add: align_bybit_interest_to_funding_def)
qed

lemma parse_snapshot_time:
  "parse_dt ''11/14/2023 22:13:20'' =
     Some \<lparr>year = 2023, month = 11, day = 14, hour = 22, minute = 13, second = 20\<rparr>"
  by code_simp

lemma parse_funding_time:
  "parse_dt ''11/14/2023 23:00:00'' =
     Some \<lparr>year = 2023, month = 11, day = 14, hour = 23, minute = 0, second = 0\<rparr>"
  by code_simp

lemma parse_year_one:
  "parse_dt ''1/1/0001 0:00:00'' =
     Some \<lparr>year = 1, month = 1, day = 1, hour = 0, minute = 0, second = 0\<rparr>"
  by code_simp

lemma strip_examples:
  "strip '''' = ''''" "strip ''5.5'' = ''5.5''" "strip ''10.95'' = ''10.95''"
  by (simp_all add: strip_def is_space_def)

lemma align_updates_example:
  "align_updates (\<lambda>dt. Inr (int (hour dt * 3600 + minute dt * 60 + second dt)))
     (\<lambda>s. if s = ''5.5'' then Some 5.5 else None)
     [[''11/14/2023 22:13:20'', '''', '''', ''5.5''], [''11/14/2023 23:00:00'', ''10.95'', ''-10.95'']] =
   Inr [(3, 5.5)]"
  by (simp add: align_updates_def Let_def cell_at_def to_ms_def parse_snapshot_time parse_funding_time
        strip_examples BYBIT_ALIGN_MAX_GAP_HOURS_def cands_def bisect_left_def bisect_left_loop.simps
        min_from_def)

lemma align_updates_raises:
  "align_updates (\<lambda>dt. if year dt = 1 then Inl ValueError else Inr 0) float_of
     [[''1/1/0001 0:00:00'', ''10.95'', ''-10.95'']] = Inl ValueError"
  by (simp add: align_updates_def Let_def cell_at_def to_ms_def parse_year_one)

theorem reconciliation_frame_witness:
  "align_updates (\<lambda>dt. Inr (int (hour dt * 3600 + minute dt * 60 + second dt)))
     (\<lambda>s. if s = ''5.5'' then Some 5.5 else None)
     [[''11/14/2023 22:13:20'', '''', '''', ''5.5''],
      [''11/14/2023 23:00:00'', ''10.95'', ''-10.95'']] = Inr [(3, 5.5)] \<and>
   snd (align_bybit_interest_to_funding (\<lambda>dt. Inr (int (hour dt * 3600 + minute dt * 60 + second dt)))
     (\<lambda>s. if s = ''5.5'' then Some 5.5 else None)
     \<lparr>ws_title = ''ENA_Bybit'', ws_col_1 = [], ws_A2B = [],
      ws_A2D = [[''11/14/2023 22:13:20'', '''', '''', ''5.5''],
                [''11/14/2023 23:00:00'', ''10.95'', ''-10.95'']]\<rparr>
     (\<lambda>cell. PNone)) (3, 4) \<noteq> PNone \<and>
   strip (cell_at [''11/14/2023 23:00:00'', ''10.95'', ''-10.95''] 1) \<noteq> [] \<and>
   strip (cell_at [''11/14/2023 23:00:00'', ''10.95'', ''-10.95''] 3) = [] \<and>
   align_updates (\<lambda>dt. if year dt = 1 then Inl ValueError else Inr 0)
     (\<lambda>s. None) [[''1/1/0001 0:00:00'', ''10.95'', ''-10.95'']] = Inl ValueError \<and>
   align_bybit_interest_to_funding (\<lambda>dt. if year dt = 1 then Inl ValueError else Inr 0)
     (\<lambda>s. None)
     \<lparr>ws_title = ''ENA_Bybit'', ws_col_1 = [], ws_A2B = [],
      ws_A2D = [[''1/1/0001 0:00:00'', ''10.95'', ''-10.95'']]\<rparr>
     (\<lambda>cell. PNone) = (Inl ValueError, \<lambda>cell. PNone)"
proof -
  let ?ts = "\<lambda>dt. Inr (int (hour dt * 3600 + minute dt * 60 + second dt)) :: exn + int"
  let ?fl = "\<lambda>s. if s = ''5.5'' then Some (5.5 :: real) else None"
  let ?vals = "[[''11/14/2023 22:13:20'', '''', '''', ''5.5''],
                [''11/14/2023 23:00:00'', ''10.95'', ''-10.95'']]"
  let ?ws = "\<lparr>ws_title = ''ENA_Bybit'', ws_col_1 = [], ws_A2B = [], ws_A2D = ?vals\<rparr>"
  let ?sh = "(\<lambda>cell. PNone) :: sheet"
  let ?ts1 = "\<lambda>dt. if year dt = 1 then Inl ValueError else (Inr 0 :: exn + int)"
  let ?fl1 = "(\<lambda>s. None) :: string \<Rightarrow> real option"
  let ?ws1 = "\<lparr>ws_title = ''ENA_Bybit'', ws_col_1 = [], ws_A2B = [],
      ws_A2D = [[''1/1/0001 0:00:00'', ''10.95'', ''-10.95'']]\<rparr>"
  have ex: "align_updates ?ts ?fl ?vals = Inr [(3, 5.5)]" by (rule align_updates_example)
  have "align_bybit_interest_to_funding ?ts ?fl ?ws ?sh =
          (Inr (), foldl (\<lambda>sh (row_idx, val). update_cell sh row_idx 4 val) ?sh [(3, 5.5)])"
    by (simp only: align_bybit_interest_to_funding_def worksheet.select_convs align_updates_example
          sum.case)
  then have ch: "snd (align_bybit_interest_to_funding ?ts ?fl ?ws ?sh) (3, 4) \<noteq> ?sh (3, 4)"
    by (simp add: update_cell_def)
  from reconciliation_frame [of ?ts ?fl ?vals "[(3, 5.5)]" ?ws ?sh 3 4] ex
  have "\<forall>(r, v) \<in> set [(3 :: nat, 5.5 :: real)]. 2 \<le> r \<and> r < 2 + length ?vals" by blast
  from reconciliation_frame [of ?ts ?fl _ _ ?ws ?sh 3 4] ch
  have "strip (cell_at (ws_A2D ?ws ! (3 - 2)) 1) \<noteq> [] \<and> strip (cell_at (ws_A2D ?ws ! (3 - 2)) 3) = []"
    by blast
  then have st: "strip (cell_at [''11/14/2023 23:00:00'', ''10.95'', ''-10.95''] 1) \<noteq> [] \<and>
             strip (cell_at [''11/14/2023 23:00:00'', ''10.95'', ''-10.95''] 3) = []"
    by simp
  have r: "align_updates ?ts1 ?fl1 (ws_A2D ?ws1) = Inl ValueError"
    by (simp only: worksheet.select_convs align_updates_raises)
  from reconciliation_frame [of ?ts1 ?fl1 _ _ ?ws1 ?sh _ _ ValueError] r
  have r2: "align_bybit_interest_to_funding ?ts1 ?fl1 ?ws1 ?sh = (Inl ValueError, ?sh)" by blast
  from ex ch st r r2 show ?thesis by (simp only: worksheet.select_convs) simp
qed

section \<open>Appending new rows: filtering and the fixed width\<close>

lemma is_new_iff: "is_new float_str existing r \<longleftrightarrow> r \<noteq> [] \<and> row_key float_str r \<notin> existing"
  by (cases r) (simp_all add: is_new_def row_key_def)

lemma normalized_length: "length (normalized r) = 11"
  by (simp add: normalized_def)

lemma normalized_key: "r \<noteq> [] \<Longrightarrow> normalized r ! 0 = r ! 0"
  by (cases r) (simp_all add: normalized_def)

lemma normalize_loop_Cons:
  "normalize_loop float_str (r # rs) existing =
   (normalized r # fst (normalize_loop float_str rs (insert (py_str float_str (normalized r ! 0)) existing)),
    snd (normalize_loop float_str rs (insert (py_str float_str (normalized r ! 0)) existing)))"
proof -
  have m: "11 - min (length r) 11 = 11 - length r" by simp
  show ?thesis by (simp add: Let_def normalized_def m split: prod.split)
qed

lemma normalize_loop_out: "fst (normalize_loop float_str rs existing) = map normalized rs"
proof (induction rs arbitrary: existing)
  case Nil
  show ?case by simp
next
  case (Cons r rs)
  show ?case using Cons [of "insert (py_str float_str (normalized r ! 0)) existing"]
    by (simp add: normalize_loop_Cons del: normalize_loop.simps)
qed

lemma normalize_loop_keys:
  "\<forall>r \<in> set rs. r \<noteq> [] \<Longrightarrow>
   snd (normalize_loop float_str rs existing) = existing \<union> row_key float_str ` set rs"
proof (induction rs arbitrary: existing)
  case Nil
  show ?case by simp
next
  case (Cons r rs)
  have k: "py_str float_str (normalized r ! 0) = row_key float_str r"
    using Cons.prems by (simp add: normalized_key row_key_def)
  have "snd (normalize_loop float_str rs (insert (row_key float_str r) existing)) =
        insert (row_key float_str r) existing \<union> row_key float_str ` set rs"
    using Cons.IH Cons.prems by simp
  then show ?case by (simp add: normalize_loop_Cons k del: normalize_loop.simps)
qed

lemma get_existing_cached:
  "EXISTING_DATES_CACHE (snd (get_existing_dates_set ws c)) (ws_title ws) =
   Some (fst (get_existing_dates_set ws c))"
  by (simp add: get_existing_dates_set_def Let_def split: option.split)

lemma get_existing_of_cached:
  "EXISTING_DATES_CACHE c (ws_title ws) = Some s \<Longrightarrow> get_existing_dates_set ws c = (s, c)"
  by (simp add: get_existing_dates_set_def)

lemma append_calls:
  "snd (append_new_unique_rows float_str ws rows c) =
   (if filter (is_new float_str (fst (get_existing_dates_set ws c))) rows = [] then []
    else [map normalized (filter (is_new float_str (fst (get_existing_dates_set ws c))) rows)])"
proof (cases "rows = []")
  case True
  then show ?thesis by (simp add: append_new_unique_rows_def)
next
  case False
  obtain ex c1 where g: "get_existing_dates_set ws c = (ex, c1)"
    by (cases "get_existing_dates_set ws c")
  obtain out ex' where n: "normalize_loop float_str (filter (is_new float_str ex) rows) ex = (out, ex')"
    by (cases "normalize_loop float_str (filter (is_new float_str ex) rows) ex")
  have "out = map normalized (filter (is_new float_str ex) rows)"
    using normalize_loop_out [of float_str "filter (is_new float_str ex) rows" ex] n by simp
  then show ?thesis using False by (simp add: append_new_unique_rows_def g n Let_def)
qed

lemma append_cache:
  assumes "rows \<noteq> []"
  shows "EXISTING_DATES_CACHE (fst (append_new_unique_rows float_str ws rows c)) (ws_title ws) =
         Some (fst (get_existing_dates_set ws c) \<union>
               row_key float_str ` set (filter (is_new float_str (fst (get_existing_dates_set ws c))) rows))"
proof -
  obtain ex c1 where g: "get_existing_dates_set ws c = (ex, c1)"
    by (cases "get_existing_dates_set ws c")
  have c1: "EXISTING_DATES_CACHE c1 (ws_title ws) = Some ex"
    using get_existing_cached [of ws c] by (simp add: g)
  let ?acc = "filter (is_new float_str ex) rows"
  obtain out ex' where n: "normalize_loop float_str ?acc ex = (out, ex')"
    by (cases "normalize_loop float_str ?acc ex")
  have "\<forall>r \<in> set ?acc. r \<noteq> []" by (simp add: is_new_iff)
  from normalize_loop_keys [OF this, of float_str ex] n
  have ex': "ex' = ex \<union> row_key float_str ` set ?acc" by simp
  show ?thesis
  proof (cases "?acc = []")
    case True
    then show ?thesis using assms c1 by (simp add: append_new_unique_rows_def g Let_def)
  next
    case False
    then show ?thesis using assms by (simp add: append_new_unique_rows_def g n ex' Let_def)
  qed
qed

lemma append_twice:
  "snd (append_new_unique_rows float_str ws rows (fst (append_new_unique_rows float_str ws rows c))) = []"
proof (cases "rows = []")
  case True
  then show ?thesis by (simp add: append_new_unique_rows_def)
next
  case False
  let ?ex = "fst (get_existing_dates_set ws c)"
  let ?acc = "filter (is_new float_str ?ex) rows"
  let ?c' = "fst (append_new_unique_rows float_str ws rows c)"
  let ?ex' = "?ex \<union> row_key float_str ` set ?acc"
  have "EXISTING_DATES_CACHE ?c' (ws_title ws) = Some ?ex'" by (rule append_cache [OF False])
  then have g: "get_existing_dates_set ws ?c' = (?ex', ?c')" by (rule get_existing_of_cached)
  have "filter (is_new float_str ?ex') rows = []"
    by (auto simp: filter_empty_conv is_new_iff)
  then show ?thesis using append_calls [of float_str ws rows ?c'] by (simp add: g)
qed

text \<open>
  Claim C1, as stated, fails for a duplicate inside one batch: the keys are compared
  with the set as it is before the loop that adds them. On a sheet that holds only the
  header, two rows with the same date are both written.
\<close>

theorem filter_new_counterexample:
  "snd (append_new_unique_rows (\<lambda>x. []) \<lparr>ws_title = ''APT_Binance'', ws_col_1 = [''Date''], ws_A2B = [], ws_A2D = []\<rparr>
         [[PStr ''1/1/2024 0:00:00'', PFloat 1], [PStr ''1/1/2024 0:00:00'', PFloat 2]] no_caches) =
   [[[PStr ''1/1/2024 0:00:00'', PFloat 1, PStr [], PStr [], PStr [], PStr [], PStr [], PStr [], PStr [], PStr [], PStr []],
     [PStr ''1/1/2024 0:00:00'', PFloat 2, PStr [], PStr [], PStr [], PStr [], PStr [], PStr [], PStr [], PStr [], PStr []]]]"
  by (simp add: append_calls get_existing_dates_set_def no_caches_def is_new_def normalized_def
        numeral_eq_Suc)

text \<open>
  Claim C1, amended. The batch written is, in input order, the non-empty rows whose
  key (\<^verbatim>\<open>str\<close> of the first field) is absent from the cached key set as it is when
  the call starts, each at the fixed width; no call is made when there is none. After a
  call with a non-empty row list the cache of the sheet holds the former keys and the
  keys of the accepted rows. Submitting the same rows again to the resulting caches
  writes nothing.
\<close>

theorem filter_new_rows:
  "snd (append_new_unique_rows float_str ws rows c) =
     (if filter (\<lambda>r. r \<noteq> [] \<and> row_key float_str r \<notin> fst (get_existing_dates_set ws c)) rows = [] then []
      else [map normalized
              (filter (\<lambda>r. r \<noteq> [] \<and> row_key float_str r \<notin> fst (get_existing_dates_set ws c)) rows)]) \<and>
   (rows \<noteq> [] \<longrightarrow>
      EXISTING_DATES_CACHE (fst (append_new_unique_rows float_str ws rows c)) (ws_title ws) =
        Some (fst (get_existing_dates_set ws c) \<union>
              row_key float_str `
                set (filter (\<lambda>r. r \<noteq> [] \<and> row_key float_str r \<notin> fst (get_existing_dates_set ws c)) rows))) \<and>
   snd (append_new_unique_rows float_str ws rows (fst (append_new_unique_rows float_str ws rows c))) = []"
proof -
  have f: "is_new float_str (fst (get_existing_dates_set ws c)) =
           (\<lambda>r. r \<noteq> [] \<and> row_key float_str r \<notin> fst (get_existing_dates_set ws c))"
    by (rule ext) (simp add: is_new_iff)
  show ?thesis
    using append_calls [of float_str ws rows c] append_cache [of rows float_str ws c]
      append_twice [of float_str ws rows c]
    unfolding f by blast
qed

theorem filter_new_rows_witness:
  "[[PStr ''1/1/2024 0:00:00'', PFloat 1], [PStr ''1/2/2024 0:00:00'', PFloat 2]] \<noteq> [] \<and>
   EXISTING_DATES_CACHE
     (fst (append_new_unique_rows (\<lambda>x. [])
            \<lparr>ws_title = ''APT_Binance'', ws_col_1 = [''Date'', ''1/1/2024 0:00:00''], ws_A2B = [], ws_A2D = []\<rparr>
            [[PStr ''1/1/2024 0:00:00'', PFloat 1], [PStr ''1/2/2024 0:00:00'', PFloat 2]] no_caches))
     ''APT_Binance'' = Some {''1/1/2024 0:00:00'', ''1/2/2024 0:00:00''} \<and>
   snd (append_new_unique_rows (\<lambda>x. [])
          \<lparr>ws_title = ''APT_Binance'', ws_col_1 = [''Date'', ''1/1/2024 0:00:00''], ws_A2B = [], ws_A2D = []\<rparr>
          [[PStr ''1/1/2024 0:00:00'', PFloat 1], [PStr ''1/2/2024 0:00:00'', PFloat 2]] no_caches) =
     [[normalized [PStr ''1/2/2024 0:00:00'', PFloat 2]]]"
proof -
  let ?ws = "\<lparr>ws_title = ''APT_Binance'', ws_col_1 = [''Date'', ''1/1/2024 0:00:00''], ws_A2B = [], ws_A2D = []\<rparr>"
  let ?rows = "[[PStr ''1/1/2024 0:00:00'', PFloat 1], [PStr ''1/2/2024 0:00:00'', PFloat 2]]"
  note T = filter_new_rows [of "\<lambda>x. []" ?ws ?rows no_caches]
  have ne: "?rows \<noteq> []" by simp
  have ex: "fst (get_existing_dates_set ?ws no_caches) = {''1/1/2024 0:00:00''}"
    by (auto simp: get_existing_dates_set_def no_caches_def Let_def)
  have acc: "filter (\<lambda>r. r \<noteq> [] \<and> row_key (\<lambda>x. []) r \<notin> {''1/1/2024 0:00:00''}) ?rows =
             [[PStr ''1/2/2024 0:00:00'', PFloat 2]]"
    by (simp add: row_key_def)
  from T ne have
    "EXISTING_DATES_CACHE (fst (append_new_unique_rows (\<lambda>x. []) ?ws ?rows no_caches)) (ws_title ?ws) =
       Some (fst (get_existing_dates_set ?ws no_caches) \<union>
             row_key (\<lambda>x. []) `
               set (filter (\<lambda>r. r \<noteq> [] \<and> row_key (\<lambda>x. []) r \<notin> fst (get_existing_dates_set ?ws no_caches)) ?rows))"
    by blast
  then have 1: "EXISTING_DATES_CACHE (fst (append_new_unique_rows (\<lambda>x. []) ?ws ?rows no_caches)) ''APT_Binance'' =
       Some {''1/1/2024 0:00:00'', ''1/2/2024 0:00:00''}"
    unfolding ex acc by (simp add: row_key_def insert_commute)
  from T have
    "snd (append_new_unique_rows (\<lambda>x. []) ?ws ?rows no_caches) =
     (if filter (\<lambda>r. r \<noteq> [] \<and> row_key (\<lambda>x. []) r \<notin> fst (get_existing_dates_set ?ws no_caches)) ?rows = [] then []
      else [map normalized
              (filter (\<lambda>r. r \<noteq> [] \<and> row_key (\<lambda>x. []) r \<notin> fst (get_existing_dates_set ?ws no_caches)) ?rows)])"
    by blast
  then have 2: "snd (append_new_unique_rows (\<lambda>x. []) ?ws ?rows no_caches) =
     [[normalized [PStr ''1/2/2024 0:00:00'', PFloat 2]]]"
    unfolding ex acc by simp
  from ne 1 2 show ?thesis by blast
qed

lemma normalized_single:
  "normalized [PStr ''1/1/2024 0:00:00''] =
   [PStr ''1/1/2024 0:00:00'', PStr [], PStr [], PStr [], PStr [], PStr [], PStr [], PStr [], PStr [], PStr [], PStr []]"
  by (simp add: normalized_def numeral_eq_Suc)

text \<open>
  Claim C9. Every batch passed to \<^verbatim>\<open>append_rows\<close> is non-empty, is the list of the
  accepted rows at the fixed width in order, and has rows of exactly 11 fields; there is
  one such call when a row is accepted and none otherwise, in particular none for an
  empty row list (the caches are then untouched) and none when every row is filtered
  out. The fixed width cuts a row after the 11th field and fills a shorter one with the
  empty string: a row of one field becomes that field and ten empty strings. (The model
  has no failing read or write: the function itself raises nothing.)
\<close>

theorem append_normalizes:
  "(\<forall>batch \<in> set (snd (append_new_unique_rows float_str ws rows c)).
      batch \<noteq> [] \<and>
      batch = map normalized (filter (is_new float_str (fst (get_existing_dates_set ws c))) rows) \<and>
      (\<forall>row \<in> set batch. length row = 11)) \<and>
   length (snd (append_new_unique_rows float_str ws rows c)) =
     (if filter (is_new float_str (fst (get_existing_dates_set ws c))) rows = [] then 0 else 1) \<and>
   normalized r = take 11 r @ replicate (11 - length r) (PStr []) \<and>
   length (normalized r) = 11 \<and>
   append_new_unique_rows float_str ws [] c = (c, []) \<and>
   (filter (is_new float_str (fst (get_existing_dates_set ws c))) rows = [] \<longrightarrow>
      snd (append_new_unique_rows float_str ws rows c) = []) \<and>
   normalized [PStr ''1/1/2024 0:00:00''] =
     [PStr ''1/1/2024 0:00:00'', PStr [], PStr [], PStr [], PStr [], PStr [], PStr [], PStr [], PStr [], PStr [], PStr []]"
proof (intro conjI)
  show "\<forall>batch \<in> set (snd (append_new_unique_rows float_str ws rows c)).
      batch \<noteq> [] \<and>
      batch = map normalized (filter (is_new float_str (fst (get_existing_dates_set ws c))) rows) \<and>
      (\<forall>row \<in> set batch. length row = 11)"
    by (auto simp: append_calls normalized_length split: if_splits)
  show "length (snd (append_new_unique_rows float_str ws rows c)) =
     (if filter (is_new float_str (fst (get_existing_dates_set ws c))) rows = [] then 0 else 1)"
    by (simp add: append_calls)
  show "normalized r = take 11 r @ replicate (11 - length r) (PStr [])" by (simp add: normalized_def)
  show "length (normalized r) = 11" by (rule normalized_length)
  show "append_new_unique_rows float_str ws [] c = (c, [])" by (simp add: append_new_unique_rows_def)
  show "filter (is_new float_str (fst (get_existing_dates_set ws c))) rows = [] \<longrightarrow>
      snd (append_new_unique_rows float_str ws rows c) = []"
    by (simp add: append_calls)
  show "normalized [PStr ''1/1/2024 0:00:00''] =
     [PStr ''1/1/2024 0:00:00'', PStr [], PStr [], PStr [], PStr [], PStr [], PStr [], PStr [], PStr [], PStr [], PStr []]"
    by (rule normalized_single)
qed

theorem append_normalizes_witness:
  "snd (append_new_unique_rows (\<lambda>x. [])
          \<lparr>ws_title = ''APT_Binance'', ws_col_1 = [''Date''], ws_A2B = [], ws_A2D = []\<rparr>
          [[PStr ''1/1/2024 0:00:00'']] no_caches) =
     [[[PStr ''1/1/2024 0:00:00'', PStr [], PStr [], PStr [], PStr [], PStr [], PStr [], PStr [], PStr [], PStr [], PStr []]]] \<and>
   filter (is_new (\<lambda>x. []) (fst (get_existing_dates_set
        \<lparr>ws_title = ''APT_Binance'', ws_col_1 = [''Date'', ''1/1/2024 0:00:00''], ws_A2B = [], ws_A2D = []\<rparr> no_caches)))
     [[PStr ''1/1/2024 0:00:00'']] = [] \<and>
   snd (append_new_unique_rows (\<lambda>x. [])
          \<lparr>ws_title = ''APT_Binance'', ws_col_1 = [''Date'', ''1/1/2024 0:00:00''], ws_A2B = [], ws_A2D = []\<rparr>
          [[PStr ''1/1/2024 0:00:00'']] no_caches) = []"
proof -
  let ?ws0 = "\<lparr>ws_title = ''APT_Binance'', ws_col_1 = [''Date''], ws_A2B = [], ws_A2D = []\<rparr>"
  let ?ws1 = "\<lparr>ws_title = ''APT_Binance'', ws_col_1 = [''Date'', ''1/1/2024 0:00:00''], ws_A2B = [], ws_A2D = []\<rparr>"
  let ?rows = "[[PStr ''1/1/2024 0:00:00'']]"
  note T0 = append_normalizes [of "\<lambda>x. []" ?ws0 ?rows no_caches]
  note T1 = append_normalizes [of "\<lambda>x. []" ?ws1 ?rows no_caches]
  have f0: "filter (is_new (\<lambda>x. []) (fst (get_existing_dates_set ?ws0 no_caches))) ?rows = ?rows"
    by (auto simp: get_existing_dates_set_def no_caches_def is_new_def Let_def)
  have f1: "filter (is_new (\<lambda>x. []) (fst (get_existing_dates_set ?ws1 no_caches))) ?rows = []"
    by (auto simp: get_existing_dates_set_def no_caches_def is_new_def Let_def)
  from T0 have len: "length (snd (append_new_unique_rows (\<lambda>x. []) ?ws0 ?rows no_caches)) = 1"
    unfolding f0 by simp
  then obtain b where b: "snd (append_new_unique_rows (\<lambda>x. []) ?ws0 ?rows no_caches) = [b]"
    by (cases "snd (append_new_unique_rows (\<lambda>x. []) ?ws0 ?rows no_caches)") auto
  from T0 b have "b = map normalized ?rows" unfolding f0 by simp
  moreover from T0 have "normalized [PStr ''1/1/2024 0:00:00''] =
     [PStr ''1/1/2024 0:00:00'', PStr [], PStr [], PStr [], PStr [], PStr [], PStr [], PStr [], PStr [], PStr [], PStr []]"
    by blast
  ultimately have 1: "snd (append_new_unique_rows (\<lambda>x. []) ?ws0 ?rows no_caches) =
     [[[PStr ''1/1/2024 0:00:00'', PStr [], PStr [], PStr [], PStr [], PStr [], PStr [], PStr [], PStr [], PStr [], PStr []]]]"
    using b by simp
  from T1 f1 have 2: "snd (append_new_unique_rows (\<lambda>x. []) ?ws1 ?rows no_caches) = []" by blast
  from 1 f1 2 show ?thesis by blast
qed

section \<open>The Bybit snapshot row\<close>

lemma fmt_dt_snapshot_time: "fmt_dt (\<lambda>s. Inr 0) 1700000000000 = Inr ''11/14/2023 22:13:20''"
proof -
  have o: "ord2ymd 738838 = (2023, 11, 14)"
    by (simp add: ord2ymd_def Let_def DAYS_BEFORE_MONTH_def DAYS_IN_MONTH_def)
  show ?thesis
    by (simp add: fmt_dt_def fromtimestamp_def local_seconds_def Let_def o format_dt_def show_nat.simps pad2_def digit_char_def)
qed

lemma parse_interest_only_time:
  "parse_dt ''11/14/2023 22:13:20'' =
     Some \<lparr>year = 2023, month = 11, day = 14, hour = 22, minute = 13, second = 20\<rparr>"
  by code_simp

lemma strip_cells: "strip '''' = ''''" "strip ''0'' = ''0''" "strip ''5.5'' = ''5.5''"
  by (simp_all add: strip_def is_space_def)

text \<open>
  Claim C6 against the code. For a snapshot with a flexible rate of 5.5 percent taken at
  1700000000000 ms, the row appended is the formatted time, 0.0 and 0.0 in the two
  funding fields, the interest 5.5 and seven \<^verbatim>\<open>None\<close>: the funding fields are numbers,
  not empty. The reconciliation pass takes a row for an interest snapshot only when its
  funding cell is blank: read back with \<open>0\<close> in column B the row is neither a snapshot
  nor a target, while the same row with a blank funding cell is a snapshot.
\<close>

theorem snapshot_row_funding_cells:
  "append_snapshot_row (\<lambda>x. []) (\<lambda>s. Inr 0) 1700000000000
     \<lparr>ws_title = ''ENA_Bybit'', ws_col_1 = [''Date''], ws_A2B = [], ws_A2D = []\<rparr>
     (Some \<lparr>flexible_pct = Some 5.5, fixed90_pct = None, fixed180_pct = None, maxBorrow_coin = None\<rparr>)
     no_caches =
   Inr (\<lparr>EXISTING_DATES_CACHE = [''ENA_Bybit'' \<mapsto> {''11/14/2023 22:13:20''}],
        LAST_FUNDING_DT_CACHE = Map.empty\<rparr>,
       [[[PStr ''11/14/2023 22:13:20'', PFloat 0, PFloat 0, PFloat 5.5, PNone, PNone, PNone, PNone,
          PNone, PNone, PNone]]]) \<and>
   classify_rows (\<lambda>dt. Inr 0) (\<lambda>s. if s = ''5.5'' then Some 5.5 else None) 2
     [[''11/14/2023 22:13:20'', ''0'', ''0'', ''5.5'']] = Inr ([], []) \<and>
   classify_rows (\<lambda>dt. Inr 0) (\<lambda>s. if s = ''5.5'' then Some 5.5 else None) 2
     [[''11/14/2023 22:13:20'', '''', '''', ''5.5'']] = Inr ([(0, 5.5)], [])"
proof (intro conjI)
  show "append_snapshot_row (\<lambda>x. []) (\<lambda>s. Inr 0) 1700000000000
     \<lparr>ws_title = ''ENA_Bybit'', ws_col_1 = [''Date''], ws_A2B = [], ws_A2D = []\<rparr>
     (Some \<lparr>flexible_pct = Some 5.5, fixed90_pct = None, fixed180_pct = None, maxBorrow_coin = None\<rparr>)
     no_caches =
   Inr (\<lparr>EXISTING_DATES_CACHE = [''ENA_Bybit'' \<mapsto> {''11/14/2023 22:13:20''}],
        LAST_FUNDING_DT_CACHE = Map.empty\<rparr>,
       [[[PStr ''11/14/2023 22:13:20'', PFloat 0, PFloat 0, PFloat 5.5, PNone, PNone, PNone, PNone,
          PNone, PNone, PNone]]])"
    by (simp add: append_snapshot_row_def APPEND_BYBIT_SNAPSHOT_ROW_def fmt_dt_snapshot_time
          snapshot_row_def py_or_def of_optional_def append_new_unique_rows_def
          get_existing_dates_set_def no_caches_def is_new_def Let_def)
  show "classify_rows (\<lambda>dt. Inr 0) (\<lambda>s. if s = ''5.5'' then Some 5.5 else None) 2
     [[''11/14/2023 22:13:20'', ''0'', ''0'', ''5.5'']] = Inr ([], [])"
    by (simp add: cell_at_def to_ms_def parse_interest_only_time strip_cells)
  show "classify_rows (\<lambda>dt. Inr 0) (\<lambda>s. if s = ''5.5'' then Some 5.5 else None) 2
     [[''11/14/2023 22:13:20'', '''', '''', ''5.5'']] = Inr ([(0, 5.5)], [])"
    by (simp add: cell_at_def to_ms_def parse_interest_only_time strip_cells)
qed

section \<open>Malformed dates in stored rows\<close>

lemma last_funding_loop_skip:
  "parse_dt (cell_at row 0) = None \<Longrightarrow>
   last_funding_loop (row # rows) last_dt = last_funding_loop rows last_dt"
  by (simp add: Let_def)

lemma last_funding_loop_filter:
  "last_funding_loop (filter (\<lambda>row. parse_dt (cell_at row 0) \<noteq> None) vals) last_dt =
   last_funding_loop vals last_dt"
proof (induction vals arbitrary: last_dt)
  case Nil
  show ?case by simp
next
  case (Cons row rows)
  show ?case
  proof (cases "parse_dt (cell_at row 0)")
    case None
    then show ?thesis using Cons by (simp add: last_funding_loop_skip del: last_funding_loop.simps(2))
  next
    case (Some dt)
    then show ?thesis using Cons by (simp add: Let_def)
  qed
qed

lemma last_funding_loop_source:
  "last_funding_loop vals last_dt = Some dt \<Longrightarrow>
   last_dt = Some dt \<or>
   (\<exists>row \<in> set vals. parse_dt (cell_at row 0) = Some dt \<and> cell_at row 0 \<noteq> [] \<and>
                       strip (cell_at row 1) \<noteq> [])"
proof (induction vals arbitrary: last_dt)
  case Nil
  then show ?case by simp
next
  case (Cons row rows)
  from Cons.prems consider
      (keep) "last_funding_loop rows last_dt = Some dt"
    | (take) d where "parse_dt (cell_at row 0) = Some d" "cell_at row 0 \<noteq> []"
        "strip (cell_at row 1) \<noteq> []" "last_funding_loop rows (Some d) = Some dt"
    by (auto simp: Let_def split: if_splits option.splits)
  then show ?case
  proof cases
    case keep
    from Cons.IH [OF this] show ?thesis by auto
  next
    case take
    from Cons.IH [OF take(4)] take(1-3) show ?thesis by auto
  qed
qed

lemma parse_garbage: "parse_dt ''not a date'' = None"
  by code_simp

lemma parse_ok: "parse_dt ''1/2/2024 8:00:00'' =
    Some \<lparr>year = 2024, month = 1, day = 2, hour = 8, minute = 0, second = 0\<rparr>"
  by code_simp

text \<open>
  Claim C7, as stated, fails for the duplicate-key set: \<^verbatim>\<open>get_existing_dates_set\<close>
  never parses. A stored string that does not parse as a date is a member of the set.
\<close>

theorem malformed_rows_counterexample:
  "parse_dt ''not a date'' = None \<and>
   ''not a date'' \<in> fst (get_existing_dates_set
       \<lparr>ws_title = ''APT_Binance'', ws_col_1 = [''Date'', ''not a date''], ws_A2B = [], ws_A2D = []\<rparr>
       no_caches)"
  by (simp add: parse_garbage get_existing_dates_set_def no_caches_def Let_def)

text \<open>
  Claim C7, amended. A stored row whose date string does not parse contributes nothing
  to the watermark: dropping all such rows leaves the result of the scan unchanged, and
  a watermark found is the parsed date of a row whose funding cell is not empty. On a
  first access \<^verbatim>\<open>get_last_funding_dt\<close> returns the result of that scan. The
  duplicate-key set, on a first access, is the set of all non-empty strings of column 1
  below the header, whether they parse or not.
\<close>

theorem malformed_rows:
  "last_funding_loop (filter (\<lambda>row. parse_dt (cell_at row 0) \<noteq> None) vals) last_dt =
     last_funding_loop vals last_dt \<and>
   (last_funding_loop vals None = Some dt \<longrightarrow>
      (\<exists>row \<in> set vals. parse_dt (cell_at row 0) = Some dt \<and> strip (cell_at row 1) \<noteq> [])) \<and>
   (LAST_FUNDING_DT_CACHE c (ws_title ws) = None \<longrightarrow>
      fst (get_last_funding_dt ws c) = last_funding_loop (ws_A2B ws) None) \<and>
   (EXISTING_DATES_CACHE c (ws_title ws) = None \<longrightarrow>
      fst (get_existing_dates_set ws c) = {v \<in> set (drop 1 (ws_col_1 ws)). v \<noteq> []})"
proof (intro conjI impI)
  show "last_funding_loop (filter (\<lambda>row. parse_dt (cell_at row 0) \<noteq> None) vals) last_dt =
     last_funding_loop vals last_dt"
    by (rule last_funding_loop_filter)
next
  assume "last_funding_loop vals None = Some dt"
  from last_funding_loop_source [OF this]
  show "\<exists>row \<in> set vals. parse_dt (cell_at row 0) = Some dt \<and> strip (cell_at row 1) \<noteq> []"
    by auto
next
  assume "LAST_FUNDING_DT_CACHE c (ws_title ws) = None"
  then show "fst (get_last_funding_dt ws c) = last_funding_loop (ws_A2B ws) None"
    by (simp add: get_last_funding_dt_def Let_def)
next
  assume "EXISTING_DATES_CACHE c (ws_title ws) = None"
  then show "fst (get_existing_dates_set ws c) = {v \<in> set (drop 1 (ws_col_1 ws)). v \<noteq> []}"
    by (simp add: get_existing_dates_set_def Let_def)
qed

theorem malformed_rows_witness:
  "last_funding_loop [[''not a date'', ''12.5''], [''1/2/2024 8:00:00'', ''10.95'']] None =
     Some \<lparr>year = 2024, month = 1, day = 2, hour = 8, minute = 0, second = 0\<rparr> \<and>
   last_funding_loop [[''1/2/2024 8:00:00'', ''10.95'']] None =
     last_funding_loop [[''not a date'', ''12.5''], [''1/2/2024 8:00:00'', ''10.95'']] None \<and>
   fst (get_last_funding_dt
         \<lparr>ws_title = ''APT_Binance'', ws_col_1 = [''Date'', ''not a date'', ''1/2/2024 8:00:00''],
          ws_A2B = [[''not a date'', ''12.5''], [''1/2/2024 8:00:00'', ''10.95'']], ws_A2D = []\<rparr>
         no_caches) =
     Some \<lparr>year = 2024, month = 1, day = 2, hour = 8, minute = 0, second = 0\<rparr> \<and>
   fst (get_existing_dates_set
         \<lparr>ws_title = ''APT_Binance'', ws_col_1 = [''Date'', ''not a date'', ''1/2/2024 8:00:00''],
          ws_A2B = [[''not a date'', ''12.5''], [''1/2/2024 8:00:00'', ''10.95'']], ws_A2D = []\<rparr>
         no_caches) = {''not a date'', ''1/2/2024 8:00:00''}"
proof -
  let ?vals = "[[''not a date'', ''12.5''], [''1/2/2024 8:00:00'', ''10.95'']]"
  let ?ws = "\<lparr>ws_title = ''APT_Binance'', ws_col_1 = [''Date'', ''not a date'', ''1/2/2024 8:00:00''],
          ws_A2B = ?vals, ws_A2D = []\<rparr>"
  let ?dt = "\<lparr>year = 2024, month = 1, day = 2, hour = 8, minute = 0, second = 0\<rparr>"
  note T = malformed_rows [of ?vals None ?dt no_caches ?ws]
  have s: "strip ''10.95'' \<noteq> []" "strip ''12.5'' \<noteq> []" by (simp_all add: strip_def is_space_def)
  have f: "filter (\<lambda>row. parse_dt (cell_at row 0) \<noteq> None) ?vals = [[''1/2/2024 8:00:00'', ''10.95'']]"
    by (simp add: cell_at_def parse_garbage parse_ok)
  have v: "last_funding_loop [[''1/2/2024 8:00:00'', ''10.95'']] None = Some ?dt"
    by (simp add: cell_at_def parse_ok s Let_def)
  from T have 1: "last_funding_loop (filter (\<lambda>row. parse_dt (cell_at row 0) \<noteq> None) ?vals) None =
     last_funding_loop ?vals None" by blast
  then have 2: "last_funding_loop [[''1/2/2024 8:00:00'', ''10.95'']] None = last_funding_loop ?vals None"
    unfolding f .
  with v have 3: "last_funding_loop ?vals None = Some ?dt" by simp
  have c1: "LAST_FUNDING_DT_CACHE no_caches (ws_title ?ws) = None" by (simp add: no_caches_def)
  have c2: "EXISTING_DATES_CACHE no_caches (ws_title ?ws) = None" by (simp add: no_caches_def)
  from T c1 have "fst (get_last_funding_dt ?ws no_caches) = last_funding_loop (ws_A2B ?ws) None" by blast
  with 3 have 4: "fst (get_last_funding_dt ?ws no_caches) = Some ?dt" by simp
  from T c2 have "fst (get_existing_dates_set ?ws no_caches) = {v \<in> set (drop 1 (ws_col_1 ?ws)). v \<noteq> []}"
    by blast
  then have 5: "fst (get_existing_dates_set ?ws no_caches) = {''not a date'', ''1/2/2024 8:00:00''}"
    by auto
  from 3 2 4 5 show ?thesis by blast
qed

section \<open>Formatting and parsing dates\<close>

lemma DAYS_IN_MONTH_simps:
  "DAYS_IN_MONTH 1 = 31" "DAYS_IN_MONTH 2 = 28" "DAYS_IN_MONTH 3 = 31" "DAYS_IN_MONTH 4 = 30"
  "DAYS_IN_MONTH 5 = 31" "DAYS_IN_MONTH 6 = 30" "DAYS_IN_MONTH 7 = 31" "DAYS_IN_MONTH 8 = 31"
  "DAYS_IN_MONTH 9 = 30" "DAYS_IN_MONTH 10 = 31" "DAYS_IN_MONTH 11 = 30" "DAYS_IN_MONTH 12 = 31"
  "DAYS_IN_MONTH (Suc 0) = 31"
  by (simp_all add: DAYS_IN_MONTH_def)

lemma DAYS_BEFORE_MONTH_simps:
  "DAYS_BEFORE_MONTH 1 = 0" "DAYS_BEFORE_MONTH 2 = 31" "DAYS_BEFORE_MONTH 3 = 59"
  "DAYS_BEFORE_MONTH 4 = 90" "DAYS_BEFORE_MONTH 5 = 120" "DAYS_BEFORE_MONTH 6 = 151"
  "DAYS_BEFORE_MONTH 7 = 181" "DAYS_BEFORE_MONTH 8 = 212" "DAYS_BEFORE_MONTH 9 = 243"
  "DAYS_BEFORE_MONTH 10 = 273" "DAYS_BEFORE_MONTH 11 = 304" "DAYS_BEFORE_MONTH 12 = 334"
  "DAYS_BEFORE_MONTH (Suc 0) = 0"
  by (simp_all add: DAYS_BEFORE_MONTH_def)

text \<open>The month and the day found from the day of the year \<open>f\<close> (from 0) and the leap flag.\<close>

lemma month_day_valid:
  assumes f: "f < 365"
  shows "(let m = (f + 50) div 32;
              preceding = DAYS_BEFORE_MONTH m + (if m > 2 \<and> leap then 1 else 0)
          in if preceding > f
             then 1 \<le> m - 1 \<and> m - 1 \<le> 12 \<and>
                  f - (preceding - (DAYS_IN_MONTH (m - 1) + (if m - 1 = 2 \<and> leap then 1 else 0))) + 1
                    \<le> (if m - 1 = 2 \<and> leap then 29 else DAYS_IN_MONTH (m - 1))
             else 1 \<le> m \<and> m \<le> 12 \<and>
                  f - preceding + 1 \<le> (if m = 2 \<and> leap then 29 else DAYS_IN_MONTH m))"
proof -
  define m where "m = (f + 50) div 32"
  have lo: "32 * m \<le> f + 50" and hi: "f + 50 < 32 * m + 32"
    unfolding m_def by arith+
  from f lo hi have "1 \<le> m \<and> m \<le> 12" by arith
  then consider "m = 1" | "m = 2" | "m = 3" | "m = 4" | "m = 5" | "m = 6" | "m = 7" | "m = 8"
    | "m = 9" | "m = 10" | "m = 11" | "m = 12" by atomize_elim arith
  then have "if DAYS_BEFORE_MONTH m + (if m > 2 \<and> leap then 1 else 0) > f
             then 1 \<le> m - 1 \<and> m - 1 \<le> 12 \<and>
                  f - (DAYS_BEFORE_MONTH m + (if m > 2 \<and> leap then 1 else 0) -
                       (DAYS_IN_MONTH (m - 1) + (if m - 1 = 2 \<and> leap then 1 else 0))) + 1
                    \<le> (if m - 1 = 2 \<and> leap then 29 else DAYS_IN_MONTH (m - 1))
             else 1 \<le> m \<and> m \<le> 12 \<and>
                  f - (DAYS_BEFORE_MONTH m + (if m > 2 \<and> leap then 1 else 0)) + 1
                    \<le> (if m = 2 \<and> leap then 29 else DAYS_IN_MONTH m)"
  proof cases
    case 1 with lo hi f show ?thesis by (simp add: DAYS_IN_MONTH_simps DAYS_BEFORE_MONTH_simps)
  next
    case 2 with lo hi f show ?thesis by (cases leap; simp add: DAYS_IN_MONTH_simps DAYS_BEFORE_MONTH_simps; arith)
  next
    case 3 with lo hi f show ?thesis by (cases leap; simp add: DAYS_IN_MONTH_simps DAYS_BEFORE_MONTH_simps; arith)
  next
    case 4 with lo hi f show ?thesis by (cases leap; simp add: DAYS_IN_MONTH_simps DAYS_BEFORE_MONTH_simps; arith)
  next
    case 5 with lo hi f show ?thesis by (cases leap; simp add: DAYS_IN_MONTH_simps DAYS_BEFORE_MONTH_simps; arith)
  next
    case 6 with lo hi f show ?thesis by (cases leap; simp add: DAYS_IN_MONTH_simps DAYS_BEFORE_MONTH_simps; arith)
  next
    case 7 with lo hi f show ?thesis by (cases leap; simp add: DAYS_IN_MONTH_simps DAYS_BEFORE_MONTH_simps; arith)
  next
    case 8 with lo hi f show ?thesis by (cases leap; simp add: DAYS_IN_MONTH_simps DAYS_BEFORE_MONTH_simps; arith)
  next
    case 9 with lo hi f show ?thesis by (cases leap; simp add: DAYS_IN_MONTH_simps DAYS_BEFORE_MONTH_simps; arith)
  next
    case 10 with lo hi f show ?thesis by (cases leap; simp add: DAYS_IN_MONTH_simps DAYS_BEFORE_MONTH_simps; arith)
  next
    case 11 with lo hi f show ?thesis by (cases leap; simp add: DAYS_IN_MONTH_simps DAYS_BEFORE_MONTH_simps; arith)
  next
    case 12 with lo hi f show ?thesis by (cases leap; simp add: DAYS_IN_MONTH_simps DAYS_BEFORE_MONTH_simps; arith)
  qed
  from this [unfolded m_def] show ?thesis unfolding Let_def .
qed

lemma mod_zero_le:
  fixes x n :: nat
  assumes "0 < x" "x \<le> n"
  shows "x mod n = 0 \<longleftrightarrow> x = n"
proof (cases "x = n")
  case True
  then show ?thesis by simp
next
  case False
  with assms have "x < n" by simp
  then have "x mod n = x" by simp
  with assms False show ?thesis by simp
qed

lemma leap_arith:
  fixes a b c e :: nat
  assumes "b \<le> 3" "c \<le> 24" "e \<le> 3"
  shows "((a * 400 + 1 + b * 100 + c * 4 + e) mod 4 = 0 \<and>
          ((a * 400 + 1 + b * 100 + c * 4 + e) mod 100 \<noteq> 0 \<or>
           (a * 400 + 1 + b * 100 + c * 4 + e) mod 400 = 0)) =
         (e = 3 \<and> (c \<noteq> 24 \<or> b = 3))"
proof -
  let ?y = "a * 400 + 1 + b * 100 + c * 4 + e"
  have "?y = (e + 1) + 4 * (a * 100 + b * 25 + c)" by simp
  then have m4: "?y mod 4 = (e + 1) mod 4" by (simp only: mod_mult_self2)
  have "?y = (c * 4 + e + 1) + 100 * (a * 4 + b)" by simp
  then have m100: "?y mod 100 = (c * 4 + e + 1) mod 100" by (simp only: mod_mult_self2)
  have "?y = (b * 100 + c * 4 + e + 1) + 400 * a" by simp
  then have m400: "?y mod 400 = (b * 100 + c * 4 + e + 1) mod 400" by (simp only: mod_mult_self2)
  have e4: "(e + 1) mod 4 = 0 \<longleftrightarrow> e = 3"
    using mod_zero_le [of "e + 1" 4] assms(3) by simp
  have c100: "(c * 4 + e + 1) mod 100 = 0 \<longleftrightarrow> c = 24 \<and> e = 3"
  proof -
    have "(c * 4 + e + 1) mod 100 = 0 \<longleftrightarrow> c * 4 + e + 1 = 100"
      using mod_zero_le [of "c * 4 + e + 1" 100] assms(2,3) by simp
    also have "\<dots> \<longleftrightarrow> c = 24 \<and> e = 3" using assms(2,3) by linarith
    finally show ?thesis .
  qed
  have b400: "(b * 100 + c * 4 + e + 1) mod 400 = 0 \<longleftrightarrow> b = 3 \<and> c = 24 \<and> e = 3"
  proof -
    have "(b * 100 + c * 4 + e + 1) mod 400 = 0 \<longleftrightarrow> b * 100 + c * 4 + e + 1 = 400"
      using mod_zero_le [of "b * 100 + c * 4 + e + 1" 400] assms by simp
    also have "\<dots> \<longleftrightarrow> b = 3 \<and> c = 24 \<and> e = 3" using assms by linarith
    finally show ?thesis .
  qed
  show ?thesis unfolding m4 m100 m400 e4 c100 b400 by blast
qed

lemma leap_flag:
  assumes "b \<le> 3" "c \<le> 24" "e \<le> 3"
  shows "is_leap (a * 400 + 1 + b * 100 + c * 4 + e) = (e = 3 \<and> (c \<noteq> 24 \<or> b = 3))"
  unfolding is_leap_def by (rule leap_arith [OF assms])

lemma cycle_bounds:
  fixes b c e f r1 r2 r3 :: nat
  assumes "\<not> (e = 4 \<or> b = 4)"
    and "r1 < 146097" "r1 = 36524 * b + r2" "r2 < 36524" "r2 = 1461 * c + r3" "r3 < 1461"
    and "r3 = 365 * e + f"
  shows "b \<le> 3" "c \<le> 24" "e \<le> 3"
  using assms by linarith+

lemma year_bounds:
  fixes a b c e f r1 r2 r3 n0 :: nat
  assumes "n0 \<le> 3652058" "n0 = 146097 * a + r1" "r1 = 36524 * b + r2" "r2 = 1461 * c + r3"
    and "r3 = 365 * e + f" "b \<le> 3" "c \<le> 24" "e \<le> 3"
  shows "a * 400 + 1 + b * 100 + c * 4 + e \<le> 9999"
  using assms by linarith

lemma year_bounds_special:
  fixes a b c e f r1 r2 r3 n0 :: nat
  assumes "e = 4 \<or> b = 4"
    and "n0 \<le> 3652058" "n0 = 146097 * a + r1" "r1 < 146097" "r1 = 36524 * b + r2" "r2 < 36524"
    and "r2 = 1461 * c + r3" "r3 < 1461" "r3 = 365 * e + f"
  shows "1 \<le> a * 400 + 1 + b * 100 + c * 4 + e - 1 \<and> a * 400 + 1 + b * 100 + c * 4 + e - 1 \<le> 9999"
  using assms by linarith

lemma year_lower:
  fixes a b c e f r1 r2 r3 n0 :: nat
  assumes "364877 \<le> n0" "n0 = 146097 * a + r1" "r1 = 36524 * b + r2" "r2 = 1461 * c + r3"
    and "r3 = 365 * e + f" "f < 365" "b \<le> 3" "c \<le> 24" "e \<le> 3"
  shows "1000 \<le> a * 400 + 1 + b * 100 + c * 4 + e"
  using assms by linarith

lemma year_lower_special:
  fixes a b c e f r1 r2 r3 n0 :: nat
  assumes s: "e = 4 \<or> b = 4"
    and "364877 \<le> n0" "n0 = 146097 * a + r1" "r1 < 146097" "r1 = 36524 * b + r2" "r2 < 36524"
    and "r2 = 1461 * c + r3" "r3 < 1461" "r3 = 365 * e + f"
  shows "1000 \<le> a * 400 + 1 + b * 100 + c * 4 + e - 1"
proof (cases "b = 4")
  case True
  with assms have "2 \<le> a" by linarith
  with True show ?thesis by simp
next
  case False
  with s have e: "e = 4" by simp
  with assms have c: "c \<le> 23" by linarith
  from assms have b: "b \<le> 4" by linarith
  from e c b assms show ?thesis by linarith
qed

lemma ord2ymd_valid:
  assumes lo: "1 \<le> ordinal" and hi: "ordinal \<le> 3652059" and res: "ord2ymd ordinal = (y, m, d)"
  shows "1 \<le> y \<and> y \<le> 9999 \<and> 1 \<le> m \<and> m \<le> 12 \<and> 1 \<le> d \<and> d \<le> days_in_month y m \<and>
         (364878 \<le> ordinal \<longrightarrow> 1000 \<le> y)"
proof -
  define n0 where "n0 = ordinal - 1"
  define a where "a = n0 div 146097"
  define r1 where "r1 = n0 mod 146097"
  define b where "b = r1 div 36524"
  define r2 where "r2 = r1 mod 36524"
  define c where "c = r2 div 1461"
  define r3 where "r3 = r2 mod 1461"
  define e where "e = r3 div 365"
  define f where "f = r3 mod 365"
  define Y where "Y = a * 400 + 1 + b * 100 + c * 4 + e"
  define leapyear where "leapyear = (e = 3 \<and> (c \<noteq> 24 \<or> b = 3))"
  define m0 where "m0 = (f + 50) div 32"
  define preceding where "preceding = DAYS_BEFORE_MONTH m0 + (if m0 > 2 \<and> leapyear then 1 else 0)"
  have unfold: "ord2ymd ordinal =
      (if e = 4 \<or> b = 4 then (Y - 1, 12, 31)
       else if preceding > f
            then (Y, m0 - 1,
                  f - (preceding - (DAYS_IN_MONTH (m0 - 1) + (if m0 - 1 = 2 \<and> leapyear then 1 else 0))) + 1)
            else (Y, m0, f - preceding + 1))"
    unfolding ord2ymd_def Let_def preceding_def m0_def leapyear_def Y_def f_def e_def r3_def c_def
      r2_def b_def r1_def a_def n0_def by (rule refl)
  have n0: "n0 \<le> 3652058" using hi by (simp add: n0_def)
  have d1: "n0 = 146097 * a + r1" "r1 < 146097" by (simp_all add: a_def r1_def)
  have d2: "r1 = 36524 * b + r2" "r2 < 36524" by (simp_all add: b_def r2_def)
  have d3: "r2 = 1461 * c + r3" "r3 < 1461" by (simp_all add: c_def r3_def)
  have d4: "r3 = 365 * e + f" "f < 365" by (simp_all add: e_def f_def)
  show ?thesis
  proof (cases "e = 4 \<or> b = 4")
    case True
    with unfold have "ord2ymd ordinal = (Y - 1, 12, 31)" by simp
    with res have ymd: "y = Y - 1" "m = 12" "d = 31" by simp_all
    have "1 \<le> Y - 1 \<and> Y - 1 \<le> 9999" unfolding Y_def
      by (rule year_bounds_special [OF True n0 d1 d2 d3 d4(1)])
    moreover have "364878 \<le> ordinal \<longrightarrow> 1000 \<le> Y - 1"
    proof
      assume "364878 \<le> ordinal"
      then have "364877 \<le> n0" by (simp add: n0_def)
      then show "1000 \<le> Y - 1" unfolding Y_def
        by (rule year_lower_special [OF True _ d1 d2 d3 d4(1)])
    qed
    ultimately show ?thesis by (simp add: ymd days_in_month_def DAYS_IN_MONTH_simps)
  next
    case False
    note bnd = cycle_bounds [OF False d1(2) d2 d3 d4(1)]
    have "Y \<le> 9999" unfolding Y_def by (rule year_bounds [OF n0 d1(1) d2(1) d3(1) d4(1) bnd])
    moreover have "1 \<le> Y" by (simp add: Y_def)
    moreover have "364878 \<le> ordinal \<longrightarrow> 1000 \<le> Y"
    proof
      assume "364878 \<le> ordinal"
      then have "364877 \<le> n0" by (simp add: n0_def)
      then show "1000 \<le> Y" unfolding Y_def
        by (rule year_lower [OF _ d1(1) d2(1) d3(1) d4 bnd])
    qed
    ultimately have Y: "1 \<le> Y \<and> Y \<le> 9999 \<and> (364878 \<le> ordinal \<longrightarrow> 1000 \<le> Y)" by simp
    have leap: "is_leap Y = leapyear" unfolding Y_def leapyear_def by (rule leap_flag [OF bnd])
    note md = month_day_valid [OF d4(2), of leapyear, unfolded Let_def, folded m0_def, folded preceding_def]
    show ?thesis
    proof (cases "preceding > f")
      case True
      define D where
        "D = f - (preceding - (DAYS_IN_MONTH (m0 - 1) + (if m0 - 1 = 2 \<and> leapyear then 1 else 0))) + 1"
      from unfold False True have "ord2ymd ordinal = (Y, m0 - 1, D)" unfolding D_def by simp
      with res have ymd: "y = Y" "m = m0 - 1" "d = D" by simp_all
      from md True have "1 \<le> m0 - 1 \<and> m0 - 1 \<le> 12 \<and>
          D \<le> (if m0 - 1 = 2 \<and> leapyear then 29 else DAYS_IN_MONTH (m0 - 1))"
        unfolding D_def by (simp only: if_True)
      moreover have "1 \<le> D" by (simp add: D_def)
      ultimately show ?thesis using Y unfolding ymd days_in_month_def leap by simp
    next
      case pf: False
      define D where "D = f - preceding + 1"
      from unfold False pf have "ord2ymd ordinal = (Y, m0, D)" unfolding D_def by simp
      with res have ymd: "y = Y" "m = m0" "d = D" by simp_all
      from md pf have "1 \<le> m0 \<and> m0 \<le> 12 \<and>
          D \<le> (if m0 = 2 \<and> leapyear then 29 else DAYS_IN_MONTH m0)"
        unfolding D_def by (simp only: if_False)
      moreover have "1 \<le> D" by (simp add: D_def)
      ultimately show ?thesis using Y unfolding ymd days_in_month_def leap by simp
    qed
  qed
qed

lemma digit_char_cases:
  fixes k :: nat
  assumes "k < 10"
  obtains "k = 0" | "k = 1" | "k = 2" | "k = 3" | "k = 4" | "k = 5" | "k = 6" | "k = 7" | "k = 8" | "k = 9"
  using assms by atomize_elim arith

lemma digit_char_props:
  assumes "k < 10"
  shows "is_digit (digit_char k)" "digit_val (digit_char k) = k" "\<not> is_space (digit_char k)"
    "digit_char k \<noteq> CHR ''/''" "digit_char k \<noteq> CHR '':''" "digit_char k \<noteq> CHR '' ''"
    "in_rng (CHR ''0'') (CHR ''5'') (digit_char k) \<longleftrightarrow> k \<le> 5"
    "digit_char k = CHR ''6'' \<longleftrightarrow> k = 6"
  using assms
  by (cases k rule: digit_char_cases;
      simp add: digit_char_def is_digit_def digit_val_def is_space_def in_rng_def)+

lemma show_nat_digits: "\<forall>c \<in> set (show_nat n). is_digit c \<and> \<not> is_space c"
proof (induction n rule: show_nat.induct)
  case (1 n)
  show ?case
  proof (cases "n < 10")
    case True
    then show ?thesis by (simp add: show_nat.simps [of n] digit_char_props)
  next
    case False
    have "n mod 10 < 10" by simp
    then show ?thesis using False 1 by (simp add: show_nat.simps [of n] digit_char_props)
  qed
qed

lemma show_nat_value: "foldl (\<lambda>n c. 10 * n + digit_val c) 0 (show_nat n) = n"
proof (induction n rule: show_nat.induct)
  case (1 n)
  show ?case
  proof (cases "n < 10")
    case True
    then show ?thesis by (simp add: show_nat.simps [of n] digit_char_props)
  next
    case False
    have "n mod 10 < 10" by simp
    then show ?thesis using False 1 by (simp add: show_nat.simps [of n] digit_char_props)
  qed
qed

lemma show_nat_nonempty: "show_nat n \<noteq> []"
  by (cases "n < 10") (simp_all add: show_nat.simps [of n])

lemma strip_no_space:
  assumes "\<forall>c \<in> set s. \<not> is_space c"
  shows "strip s = s"
proof -
  have a: "dropWhile is_space s = s" using assms by (cases s) simp_all
  have "\<forall>c \<in> set (rev s). \<not> is_space c" using assms by simp
  then have b: "dropWhile is_space (rev s) = rev s" by (cases "rev s") simp_all
  show ?thesis by (simp add: strip_def a b)
qed

lemma int_of_group_show_nat: "int_of_group (show_nat n) = n"
  using show_nat_digits [of n] by (simp add: int_of_group_def strip_no_space show_nat_value)

lemma pad2_digits: "n < 100 \<Longrightarrow> pad2 n = [digit_char (n div 10), digit_char (n mod 10)]"
proof (cases "n < 10")
  case True
  then show ?thesis by (simp add: pad2_def show_nat.simps [of n] digit_char_def)
next
  case False
  assume "n < 100"
  with False have "n div 10 < 10" by simp
  then show ?thesis using False
    by (simp add: pad2_def show_nat.simps [of n] show_nat.simps [of "n div 10"])
qed

lemma int_of_group_pad2: "n < 100 \<Longrightarrow> int_of_group (pad2 n) = n"
proof -
  assume n: "n < 100"
  then have d: "n div 10 < 10" "n mod 10 < 10" by simp_all
  have "strip (pad2 n) = pad2 n"
    by (rule strip_no_space) (simp add: pad2_digits [OF n] digit_char_props d)
  then show ?thesis by (simp add: int_of_group_def pad2_digits [OF n] digit_char_props d)
qed

lemma show_nat_year:
  assumes "1000 \<le> y" "y \<le> 9999"
  shows "show_nat y = [digit_char (y div 1000), digit_char (y div 100 mod 10),
                       digit_char (y div 10 mod 10), digit_char (y mod 10)]"
proof -
  have a: "\<not> y < 10" "\<not> y div 10 < 10" "\<not> y div 100 < 10" "y div 1000 < 10"
    using assms by simp_all
  have d: "y div 10 div 10 = y div 100" "y div 100 div 10 = y div 1000"
    by (simp_all add: div_mult2_eq [symmetric])
  show ?thesis
    using a
    by (simp add: show_nat.simps [of y] show_nat.simps [of "y div 10"]
          show_nat.simps [of "y div 100"] show_nat.simps [of "y div 1000"] d)
qed

lemmas rx_defs = rx_alt_def rx_seq_def rx_cls_def rx_lit_def in_rng_def is_digit_def

lemma rx_m_show:
  assumes "1 \<le> m" "m \<le> 12"
  shows "concat (map (\<lambda>(g, r1). concat (map (\<lambda>(x, r2). K g r2) (rx_lit (CHR ''/'') r1)))
           (rx_m (show_nat m @ CHR ''/'' # r))) = K (show_nat m) r"
proof -
  from assms consider "m = 1" | "m = 2" | "m = 3" | "m = 4" | "m = 5" | "m = 6" | "m = 7" | "m = 8"
    | "m = 9" | "m = 10" | "m = 11" | "m = 12" by atomize_elim arith
  then show ?thesis
    by cases (simp_all add: show_nat.simps digit_char_def rx_m_def rx_defs)
qed

lemma rx_d_show:
  assumes "1 \<le> d" "d \<le> 31"
  shows "concat (map (\<lambda>(g, r1). concat (map (\<lambda>(x, r2). K g r2) (rx_lit (CHR ''/'') r1)))
           (rx_d (show_nat d @ CHR ''/'' # r))) = K (show_nat d) r"
proof -
  from assms consider "d = 1" | "d = 2" | "d = 3" | "d = 4" | "d = 5" | "d = 6" | "d = 7" | "d = 8"
    | "d = 9" | "d = 10" | "d = 11" | "d = 12" | "d = 13" | "d = 14" | "d = 15" | "d = 16"
    | "d = 17" | "d = 18" | "d = 19" | "d = 20" | "d = 21" | "d = 22" | "d = 23" | "d = 24"
    | "d = 25" | "d = 26" | "d = 27" | "d = 28" | "d = 29" | "d = 30" | "d = 31"
    by atomize_elim arith
  then show ?thesis
    by cases (simp_all add: show_nat.simps digit_char_def rx_d_def rx_defs)
qed

lemma rx_H_show:
  assumes "h \<le> 23"
  shows "concat (map (\<lambda>(x3, r6). concat (map (\<lambda>(g, r7).
             concat (map (\<lambda>(x4, r8). K g r8) (rx_lit (CHR '':'') r7))) (rx_H r6)))
           (rx_spaces (CHR '' '' # show_nat h @ CHR '':'' # r))) = K (show_nat h) r"
proof -
  from assms consider "h = 0" | "h = 1" | "h = 2" | "h = 3" | "h = 4" | "h = 5" | "h = 6" | "h = 7"
    | "h = 8" | "h = 9" | "h = 10" | "h = 11" | "h = 12" | "h = 13" | "h = 14" | "h = 15"
    | "h = 16" | "h = 17" | "h = 18" | "h = 19" | "h = 20" | "h = 21" | "h = 22" | "h = 23"
    by atomize_elim arith
  then show ?thesis
    by cases (simp_all add: show_nat.simps digit_char_def rx_H_def rx_spaces_def is_space_def rx_defs)
qed

lemma rx_Y_show:
  assumes "1000 \<le> y" "y \<le> 9999"
  shows "concat (map (\<lambda>(g, r5). K g r5) (rx_Y (show_nat y @ r))) = K (show_nat y) r"
proof -
  have d: "y div 1000 < 10" "y div 100 mod 10 < 10" "y div 10 mod 10 < 10" "y mod 10 < 10"
    using assms by simp_all
  show ?thesis
    unfolding show_nat_year [OF assms]
    using digit_char_props(1) [OF d(1)] digit_char_props(1) [OF d(2)]
      digit_char_props(1) [OF d(3)] digit_char_props(1) [OF d(4)]
    by (simp add: rx_Y_def rx_seq_def rx_cls_def)
qed

lemma rx_M_show:
  assumes "n < 60"
  shows "concat (map (\<lambda>(g, r9). concat (map (\<lambda>(x5, r10). K g r10) (rx_lit (CHR '':'') r9)))
           (rx_M (pad2 n @ CHR '':'' # r))) = K (pad2 n) r"
proof -
  have n: "n < 100" using assms by simp
  have d: "n div 10 < 10" "n mod 10 < 10" "n div 10 \<le> 5" using assms by simp_all
  show ?thesis
    unfolding pad2_digits [OF n]
    using digit_char_props(1) [OF d(1)] digit_char_props(1) [OF d(2)] digit_char_props(5) [OF d(2)]
      digit_char_props(7) [OF d(1)] d(3)
    by (simp add: rx_M_def rx_alt_def rx_seq_def rx_cls_def rx_lit_def)
qed

lemma rx_S_show:
  assumes "n < 60"
  shows "map (\<lambda>(g, r11). K g r11) (rx_S (pad2 n)) =
         [K (pad2 n) [], K [digit_char (n div 10)] [digit_char (n mod 10)]]"
proof -
  have n: "n < 100" using assms by simp
  have d: "n div 10 < 10" "n mod 10 < 10" "n div 10 \<le> 5" using assms by simp_all
  have six: "digit_char (n div 10) \<noteq> CHR ''6''" using digit_char_props(8) [OF d(1)] d(3) by simp
  show ?thesis
    unfolding pad2_digits [OF n]
    using digit_char_props(1) [OF d(1)] digit_char_props(1) [OF d(2)]
      digit_char_props(7) [OF d(1)] d(3) six
    by (simp add: rx_S_def rx_alt_def rx_seq_def rx_cls_def rx_lit_def)
qed

lemma days_in_month_le: "1 \<le> m \<Longrightarrow> m \<le> 12 \<Longrightarrow> days_in_month y m \<le> 31"
proof -
  assume "1 \<le> m" "m \<le> 12"
  then consider "m = 1" | "m = 2" | "m = 3" | "m = 4" | "m = 5" | "m = 6" | "m = 7"
    | "m = 8" | "m = 9" | "m = 10" | "m = 11" | "m = 12" by atomize_elim arith
  then show ?thesis by cases (simp_all add: days_in_month_def DAYS_IN_MONTH_def)
qed

lemma format_regex_format_dt:
  assumes v: "valid_datetime dt" and y: "1000 \<le> year dt"
  shows "format_regex (format_dt dt) =
         [((show_nat (month dt), show_nat (day dt), show_nat (year dt), show_nat (hour dt),
            pad2 (minute dt), pad2 (second dt)), []),
          ((show_nat (month dt), show_nat (day dt), show_nat (year dt), show_nat (hour dt),
            pad2 (minute dt), [digit_char (second dt div 10)]), [digit_char (second dt mod 10)])]"
proof -
  from v have m: "1 \<le> month dt" "month dt \<le> 12" and d1: "1 \<le> day dt"
    and dm: "day dt \<le> days_in_month (year dt) (month dt)" and y9: "year dt \<le> 9999"
    and h: "hour dt \<le> 23" and mi: "minute dt < 60" and se: "second dt < 60"
    by (simp_all add: valid_datetime_def)
  from dm days_in_month_le [OF m, of "year dt"] have d31: "day dt \<le> 31" by simp
  have s: "format_dt dt =
        show_nat (month dt) @ CHR ''/'' # show_nat (day dt) @ CHR ''/'' # show_nat (year dt) @
        CHR '' '' # show_nat (hour dt) @ CHR '':'' # pad2 (minute dt) @ CHR '':'' # pad2 (second dt)"
    by (simp add: format_dt_def)
  show ?thesis
    unfolding format_regex_def s
    by (simp only: rx_m_show [OF m] rx_d_show [OF d1 d31] rx_Y_show [OF y y9] rx_H_show [OF h]
          rx_M_show [OF mi] rx_S_show [OF se])
qed

lemma strptime_format_dt:
  assumes v: "valid_datetime dt" and y: "1000 \<le> year dt"
  shows "strptime (format_dt dt) = Inr dt"
proof -
  from v have mi: "minute dt < 100" and se: "second dt < 100" by (simp_all add: valid_datetime_def)
  have "mk_datetime (year dt) (month dt) (day dt) (hour dt) (minute dt) (second dt) = Inr dt"
    using v by (simp add: mk_datetime_def valid_datetime_def)
  then show ?thesis
    by (simp add: strptime_def format_regex_format_dt [OF v y] int_of_group_show_nat
          int_of_group_pad2 [OF mi] int_of_group_pad2 [OF se])
qed

lemma parse_format_dt:
  assumes "valid_datetime dt" "1000 \<le> year dt"
  shows "parse_dt (format_dt dt) = Some dt"
  by (simp add: parse_dt_def strptime_format_dt [OF assms])

lemma local_seconds_ok:
  assumes "utcoffset u = Inr off" "- 62135596800 \<le> u + off" "u + off < 253402300800"
  shows "local_seconds utcoffset u = Inr (u + off)"
proof -
  have "- 719162 \<le> (u + off) div 86400" "(u + off) div 86400 < 2932897"
    using assms(2,3) by linarith+
  then show ?thesis using assms(1) by (simp add: local_seconds_def Let_def)
qed

lemma local_seconds_range:
  "local_seconds utcoffset u = Inr loc \<Longrightarrow>
   1 \<le> loc div 86400 + 719163 \<and> loc div 86400 + 719163 \<le> 3652059"
  by (auto simp: local_seconds_def Let_def split: sum.splits if_splits)

lemma fromtimestamp_loc:
  assumes "fromtimestamp utcoffset ts_ms = Inr dt"
  shows "\<exists>loc. local_seconds utcoffset (ts_ms div 1000) = Inr loc \<and>
           dt = (case ord2ymd (nat (loc div 86400 + 719163)) of
                   (y, m, d) \<Rightarrow>
                     \<lparr>year = y, month = m, day = d, hour = nat (loc mod 86400) div 3600,
                      minute = nat (loc mod 86400) mod 3600 div 60,
                      second = nat (loc mod 86400) mod 60\<rparr>)"
  using assms by (auto simp: fromtimestamp_def Let_def split: sum.splits if_splits prod.splits)

lemma fromtimestamp_valid:
  assumes "fromtimestamp utcoffset ts_ms = Inr dt"
  shows "valid_datetime dt"
proof -
  from fromtimestamp_loc [OF assms] obtain loc where
    l: "local_seconds utcoffset (ts_ms div 1000) = Inr loc"
    and dt0: "dt = (case ord2ymd (nat (loc div 86400 + 719163)) of
                   (y, m, d) \<Rightarrow>
                     \<lparr>year = y, month = m, day = d, hour = nat (loc mod 86400) div 3600,
                      minute = nat (loc mod 86400) mod 3600 div 60,
                      second = nat (loc mod 86400) mod 60\<rparr>)" by blast
  define ordinal where "ordinal = loc div 86400 + 719163"
  define sod where "sod = nat (loc mod 86400)"
  obtain y m d where o: "ord2ymd (nat ordinal) = (y, m, d)" by (cases "ord2ymd (nat ordinal)")
  from local_seconds_range [OF l] have rng: "1 \<le> ordinal" "ordinal \<le> 3652059"
    by (simp_all add: ordinal_def)
  from dt0 o have dt: "dt = \<lparr>year = y, month = m, day = d, hour = sod div 3600,
                              minute = sod mod 3600 div 60, second = sod mod 60\<rparr>"
    by (simp add: ordinal_def sod_def)
  have "1 \<le> nat ordinal" "nat ordinal \<le> 3652059" using rng by linarith+
  from ord2ymd_valid [OF this o] have ymd:
    "1 \<le> y \<and> y \<le> 9999 \<and> 1 \<le> m \<and> m \<le> 12 \<and> 1 \<le> d \<and> d \<le> days_in_month y m" by blast
  have "sod < 86400" by (simp add: sod_def)
  then have "sod div 3600 \<le> 23" "sod mod 3600 div 60 \<le> 59" "sod mod 60 \<le> 59" by arith+
  with ymd show ?thesis by (simp add: valid_datetime_def dt)
qed

lemma fromtimestamp_in_range:
  assumes o0: "utcoffset (ts_ms div 1000) = Inr off"
    and o1: "utcoffset (ts_ms div 1000 - 86400) = Inr off1"
    and o2: "off < off1 \<longrightarrow> utcoffset (ts_ms div 1000 + (off - off1)) = Inr off2 \<and>
               - 62135596800 \<le> ts_ms div 1000 + (off - off1) + off2 \<and>
               ts_ms div 1000 + (off - off1) + off2 < 253402300800"
    and p1: "- 62135596800 \<le> ts_ms div 1000 - 86400 + off1"
            "ts_ms div 1000 - 86400 + off1 < 253402300800"
    and lo: "- 30610224000 \<le> ts_ms div 1000 + off"
    and hi: "ts_ms div 1000 + off < 253402300800"
  shows "\<exists>dt. fromtimestamp utcoffset ts_ms = Inr dt \<and> 1000 \<le> year dt"
proof -
  define secs where "secs = ts_ms div 1000"
  define loc where "loc = secs + off"
  define ordinal where "ordinal = loc div 86400 + 719163"
  obtain y m d where o: "ord2ymd (nat ordinal) = (y, m, d)" by (cases "ord2ymd (nat ordinal)")
  have "- 354285 \<le> loc div 86400" "loc div 86400 < 2932897"
    using lo hi unfolding loc_def secs_def by linarith+
  then have rng: "364878 \<le> ordinal" "ordinal \<le> 3652059" by (simp_all add: ordinal_def)
  then have n: "1 \<le> nat ordinal" "nat ordinal \<le> 3652059" "364878 \<le> nat ordinal" by linarith+
  from ord2ymd_valid [OF n(1,2) o] n(3) have y: "1000 \<le> y" by blast
  have l0: "local_seconds utcoffset secs = Inr loc"
    unfolding loc_def using o0 lo hi by (intro local_seconds_ok) (simp_all add: secs_def)
  have l1: "local_seconds utcoffset (secs - 86400) = Inr (secs - 86400 + off1)"
    using o1 p1 by (intro local_seconds_ok) (simp_all add: secs_def)
  have tr: "loc - (secs - 86400 + off1) - 86400 = off - off1" by (simp add: loc_def)
  have l2: "\<exists>p. (if off - off1 < 0 then local_seconds utcoffset (secs + (off - off1)) else Inr loc) = Inr p"
  proof (cases "off < off1")
    case True
    with o2 have "local_seconds utcoffset (secs + (off - off1)) = Inr (secs + (off - off1) + off2)"
      by (intro local_seconds_ok) (simp_all add: secs_def)
    with True show ?thesis by simp
  next
    case False
    then show ?thesis by simp
  qed
  then obtain p where p: "(if off - off1 < 0 then local_seconds utcoffset (secs + (off - off1)) else Inr loc) = Inr p"
    by blast
  have "fromtimestamp utcoffset ts_ms =
      Inr \<lparr>year = y, month = m, day = d, hour = nat (loc mod 86400) div 3600,
           minute = nat (loc mod 86400) mod 3600 div 60, second = nat (loc mod 86400) mod 60\<rparr>"
    unfolding fromtimestamp_def Let_def secs_def [symmetric]
    by (simp only: l0 l1 sum.case tr p o [unfolded ordinal_def] prod.case)
  with y show ?thesis by simp
qed

lemma fromtimestamp_fixed_offset:
  assumes "\<forall>u. utcoffset u = Inr off"
    and lo: "- 30610224000 \<le> ts_ms div 1000 + off"
    and hi: "ts_ms div 1000 + off < 253402300800"
  shows "\<exists>dt. fromtimestamp utcoffset ts_ms = Inr dt \<and> 1000 \<le> year dt"
proof (rule fromtimestamp_in_range [where off = off and ?off1.0 = off and ?off2.0 = off])
  show "utcoffset (ts_ms div 1000) = Inr off" "utcoffset (ts_ms div 1000 - 86400) = Inr off"
    using assms(1) by simp_all
  show "off < off \<longrightarrow> utcoffset (ts_ms div 1000 + (off - off)) = Inr off \<and>
               - 62135596800 \<le> ts_ms div 1000 + (off - off) + off \<and>
               ts_ms div 1000 + (off - off) + off < 253402300800" by simp
  show "- 62135596800 \<le> ts_ms div 1000 - 86400 + off" using lo by linarith
  show "ts_ms div 1000 - 86400 + off < 253402300800" using hi by linarith
  show "- 30610224000 \<le> ts_ms div 1000 + off" by (rule lo)
  show "ts_ms div 1000 + off < 253402300800" by (rule hi)
qed

lemma ord2ymd_999: "ord2ymd 364513 = (999, 1, 1)"
  by (simp add: ord2ymd_def Let_def DAYS_BEFORE_MONTH_def DAYS_IN_MONTH_def)

lemma fmt_dt_999: "fmt_dt (\<lambda>s. Inr 0) (- 30641760000000) = Inr ''1/1/999 0:00:00''"
  by (simp add: fmt_dt_def fromtimestamp_def local_seconds_def Let_def ord2ymd_999 format_dt_def
        show_nat.simps pad2_def digit_char_def)

lemma parse_dt_999: "parse_dt ''1/1/999 0:00:00'' = None"
  by code_simp

lemma fmt_dt_10000: "fmt_dt (\<lambda>s. Inr 0) 253402300800000 = Inl ValueError"
  by (simp add: fmt_dt_def fromtimestamp_def local_seconds_def Let_def)

lemma fmt_dt_year_one: "fmt_dt (\<lambda>s. Inr 0) (- 62135596800000) = Inl ValueError"
  by (simp add: fmt_dt_def fromtimestamp_def local_seconds_def Let_def)

lemma fmt_dt_platform: "fmt_dt (\<lambda>s. Inl OSError) ts_ms = Inl OSError"
  by (simp add: fmt_dt_def fromtimestamp_def local_seconds_def Let_def)

text \<open>
  Claim C10, as stated, fails outside the years 1000 to 9999. The timestamp
  -30641760000000 ms is 1 January 999 (UTC); \<^verbatim>\<open>fmt_dt\<close> writes the year with three
  digits, and \<^verbatim>\<open>%Y\<close> takes exactly four, so \<^verbatim>\<open>_parse_dt\<close> returns \<^verbatim>\<open>None\<close>.
  For 253402300800000 ms, the first instant of the year 10000, \<^verbatim>\<open>fmt_dt\<close> itself
  raises, and so it does for -62135596800000 ms, the first instant of the year 1, where
  the local time 24 hours earlier has no year.
\<close>

theorem fmt_parse_counterexample:
  "fmt_dt (\<lambda>s. Inr 0) (- 30641760000000) = Inr ''1/1/999 0:00:00'' \<and>
   parse_dt ''1/1/999 0:00:00'' = None \<and>
   fmt_dt (\<lambda>s. Inr 0) 253402300800000 = Inl ValueError \<and>
   fmt_dt (\<lambda>s. Inr 0) (- 62135596800000) = Inl ValueError"
  by (simp only: fmt_dt_999 parse_dt_999 fmt_dt_10000 fmt_dt_year_one)

text \<open>
  Claim C10, amended. Let the local time of \<open>ts_ms\<close> be its whole seconds (rounded down)
  plus the offset of the time zone at that instant. When it lies from 1 January 1000 to
  31 December 9999, and the conversions that \<^verbatim>\<open>fromtimestamp\<close> makes besides (the local
  time 24 hours earlier and, when the offset has gone back in between, the local time
  of the instant moved back by that change) succeed with a local time in the years 1
  to 9999, \<^verbatim>\<open>fmt_dt\<close> returns the formatted local datetime, and \<^verbatim>\<open>_parse_dt\<close> of that
  string succeeds and gives the same datetime back, although month, day and hour are
  written without padding. In a zone of one fixed offset the first condition is enough.
  The same holds whenever \<^verbatim>\<open>fromtimestamp\<close> returns a datetime in a year from 1000
  on, and for every valid datetime of such a year. The datetime depends on the
  timestamp only through its whole seconds.
\<close>

theorem fmt_parse_roundtrip:
  "(utcoffset (ts_ms div 1000) = Inr off \<and>
    utcoffset (ts_ms div 1000 - 86400) = Inr off1 \<and>
    (off < off1 \<longrightarrow>
       utcoffset (ts_ms div 1000 + (off - off1)) = Inr off2 \<and>
       - 62135596800 \<le> ts_ms div 1000 + (off - off1) + off2 \<and>
       ts_ms div 1000 + (off - off1) + off2 < 253402300800) \<and>
    - 62135596800 \<le> ts_ms div 1000 - 86400 + off1 \<and>
    ts_ms div 1000 - 86400 + off1 < 253402300800 \<and>
    - 30610224000 \<le> ts_ms div 1000 + off \<and> ts_ms div 1000 + off < 253402300800 \<longrightarrow>
      (\<exists>dt. fromtimestamp utcoffset ts_ms = Inr dt \<and> valid_datetime dt \<and> 1000 \<le> year dt \<and>
            fmt_dt utcoffset ts_ms = Inr (format_dt dt) \<and> parse_dt (format_dt dt) = Some dt)) \<and>
   ((\<forall>u. utcoffset u = Inr off) \<and>
    - 30610224000 \<le> ts_ms div 1000 + off \<and> ts_ms div 1000 + off < 253402300800 \<longrightarrow>
      (\<exists>dt. fromtimestamp utcoffset ts_ms = Inr dt \<and> valid_datetime dt \<and> 1000 \<le> year dt \<and>
            fmt_dt utcoffset ts_ms = Inr (format_dt dt) \<and> parse_dt (format_dt dt) = Some dt)) \<and>
   (fromtimestamp utcoffset ts_ms = Inr dt \<and> 1000 \<le> year dt \<longrightarrow>
      fmt_dt utcoffset ts_ms = Inr (format_dt dt) \<and> parse_dt (format_dt dt) = Some dt) \<and>
   fromtimestamp utcoffset ts_ms = fromtimestamp utcoffset (1000 * (ts_ms div 1000)) \<and>
   (valid_datetime d \<and> 1000 \<le> year d \<longrightarrow> parse_dt (format_dt d) = Some d)"
proof (intro conjI impI)
  assume "utcoffset (ts_ms div 1000) = Inr off \<and>
    utcoffset (ts_ms div 1000 - 86400) = Inr off1 \<and>
    (off < off1 \<longrightarrow>
       utcoffset (ts_ms div 1000 + (off - off1)) = Inr off2 \<and>
       - 62135596800 \<le> ts_ms div 1000 + (off - off1) + off2 \<and>
       ts_ms div 1000 + (off - off1) + off2 < 253402300800) \<and>
    - 62135596800 \<le> ts_ms div 1000 - 86400 + off1 \<and>
    ts_ms div 1000 - 86400 + off1 < 253402300800 \<and>
    - 30610224000 \<le> ts_ms div 1000 + off \<and> ts_ms div 1000 + off < 253402300800"
  then obtain x where x: "fromtimestamp utcoffset ts_ms = Inr x" "1000 \<le> year x"
    using fromtimestamp_in_range [of utcoffset ts_ms off off1 off2] by blast
  have v: "valid_datetime x" by (rule fromtimestamp_valid [OF x(1)])
  have "fmt_dt utcoffset ts_ms = Inr (format_dt x)" by (simp add: fmt_dt_def x(1))
  moreover have "parse_dt (format_dt x) = Some x" by (rule parse_format_dt [OF v x(2)])
  ultimately show "\<exists>dt. fromtimestamp utcoffset ts_ms = Inr dt \<and> valid_datetime dt \<and> 1000 \<le> year dt \<and>
            fmt_dt utcoffset ts_ms = Inr (format_dt dt) \<and> parse_dt (format_dt dt) = Some dt"
    using x v by blast
next
  assume "(\<forall>u. utcoffset u = Inr off) \<and>
    - 30610224000 \<le> ts_ms div 1000 + off \<and> ts_ms div 1000 + off < 253402300800"
  then obtain x where x: "fromtimestamp utcoffset ts_ms = Inr x" "1000 \<le> year x"
    using fromtimestamp_fixed_offset [of utcoffset off ts_ms] by blast
  have v: "valid_datetime x" by (rule fromtimestamp_valid [OF x(1)])
  have "fmt_dt utcoffset ts_ms = Inr (format_dt x)" by (simp add: fmt_dt_def x(1))
  moreover have "parse_dt (format_dt x) = Some x" by (rule parse_format_dt [OF v x(2)])
  ultimately show "\<exists>dt. fromtimestamp utcoffset ts_ms = Inr dt \<and> valid_datetime dt \<and> 1000 \<le> year dt \<and>
            fmt_dt utcoffset ts_ms = Inr (format_dt dt) \<and> parse_dt (format_dt dt) = Some dt"
    using x v by blast
next
  assume a: "fromtimestamp utcoffset ts_ms = Inr dt \<and> 1000 \<le> year dt"
  then show "fmt_dt utcoffset ts_ms = Inr (format_dt dt)" by (simp add: fmt_dt_def)
  from a have "valid_datetime dt" using fromtimestamp_valid by blast
  with a show "parse_dt (format_dt dt) = Some dt" using parse_format_dt by blast
next
  show "fromtimestamp utcoffset ts_ms = fromtimestamp utcoffset (1000 * (ts_ms div 1000))"
    by (simp add: fromtimestamp_def)
next
  assume "valid_datetime d \<and> 1000 \<le> year d"
  then show "parse_dt (format_dt d) = Some d" using parse_format_dt by blast
qed

theorem fmt_parse_roundtrip_witness:
  "(- 30610224000 :: int) \<le> 1700000000123 div 1000 + 0 \<and>
   (1700000000123 :: int) div 1000 + 0 < 253402300800 \<and>
   fromtimestamp (\<lambda>s. Inr 0) 1700000000123 =
     Inr \<lparr>year = 2023, month = 11, day = 14, hour = 22, minute = 13, second = 20\<rparr> \<and>
   valid_datetime \<lparr>year = 2023, month = 11, day = 14, hour = 22, minute = 13, second = 20\<rparr> \<and>
   fmt_dt (\<lambda>s. Inr 0) 1700000000123 = Inr ''11/14/2023 22:13:20'' \<and>
   parse_dt ''11/14/2023 22:13:20'' =
     Some \<lparr>year = 2023, month = 11, day = 14, hour = 22, minute = 13, second = 20\<rparr> \<and>
   fromtimestamp (\<lambda>s. Inr 0) 1700000000123 = fromtimestamp (\<lambda>s. Inr 0) 1700000000000"
proof -
  let ?dt = "\<lparr>year = 2023, month = 11, day = 14, hour = 22, minute = 13, second = 20\<rparr>"
  let ?utc = "(\<lambda>s. Inr 0) :: int \<Rightarrow> exn + int"
  note T = fmt_parse_roundtrip [of ?utc 1700000000123 0 0 0 ?dt ?dt]
  have h: "(- 30610224000 :: int) \<le> 1700000000123 div 1000 + 0"
          "(1700000000123 :: int) div 1000 + 0 < 253402300800" by simp_all
  have z: "\<forall>u. ?utc u = Inr 0" by simp
  have g: "?utc (1700000000123 div 1000) = Inr 0 \<and>
    ?utc (1700000000123 div 1000 - 86400) = Inr 0 \<and>
    ((0 :: int) < 0 \<longrightarrow>
       ?utc (1700000000123 div 1000 + (0 - 0)) = Inr 0 \<and>
       - 62135596800 \<le> (1700000000123 :: int) div 1000 + (0 - 0) + 0 \<and>
       (1700000000123 :: int) div 1000 + (0 - 0) + 0 < 253402300800) \<and>
    - 62135596800 \<le> (1700000000123 :: int) div 1000 - 86400 + 0 \<and>
    (1700000000123 :: int) div 1000 - 86400 + 0 < 253402300800 \<and>
    - 30610224000 \<le> (1700000000123 :: int) div 1000 + 0 \<and>
    (1700000000123 :: int) div 1000 + 0 < 253402300800" by simp
  have o: "ord2ymd 738838 = (2023, 11, 14)"
    by (simp add: ord2ymd_def Let_def DAYS_BEFORE_MONTH_def DAYS_IN_MONTH_def)
  have f: "fromtimestamp ?utc 1700000000123 = Inr ?dt"
    by (simp add: fromtimestamp_def local_seconds_def Let_def o)
  have s: "format_dt ?dt = ''11/14/2023 22:13:20''"
    by (simp add: format_dt_def show_nat.simps pad2_def digit_char_def)
  from T g obtain x where x: "fromtimestamp ?utc 1700000000123 = Inr x" "valid_datetime x"
    "fmt_dt ?utc 1700000000123 = Inr (format_dt x)" "parse_dt (format_dt x) = Some x"
    by blast
  from x(1) f have xe: "x = ?dt" by simp
  from T z h obtain x' where "fromtimestamp ?utc 1700000000123 = Inr x'" "1000 \<le> year x'"
    by blast
  have v: "valid_datetime ?dt" using x(2) unfolding xe .
  have y: "1000 \<le> year ?dt" by simp
  from T f y have "fmt_dt ?utc 1700000000123 = Inr (format_dt ?dt) \<and> parse_dt (format_dt ?dt) = Some ?dt"
    by blast
  then have 1: "fmt_dt ?utc 1700000000123 = Inr ''11/14/2023 22:13:20''"
    and 2: "parse_dt ''11/14/2023 22:13:20'' = Some ?dt" unfolding s by simp_all
  from T v y have "parse_dt (format_dt ?dt) = Some ?dt" by blast
  from T have "fromtimestamp ?utc 1700000000123 = fromtimestamp ?utc (1000 * (1700000000123 div 1000))"
    by blast
  then have 3: "fromtimestamp ?utc 1700000000123 = fromtimestamp ?utc 1700000000000" by simp
  from h f v 1 2 3 show ?thesis by blast
qed

end
